theory Spec2Isabelle
  imports Complex_Main "HOL-Library.Log_Nat" "HOL-Library.Word"
begin

section \<open>Python values used by render-homepage-hero.py\<close>

text \<open>
  The script computes with Python ints (unbounded, \<open>int\<close>), Python floats (IEEE binary64)
  and tuples of ints. A finite binary64 value is modelled by the rational number it
  denotes; every float operation is the exact rational operation followed by rounding to
  nearest, ties to even, at 53 bits of precision (\<open>fl\<close>), as IEEE 754 prescribes for
  \<open>+\<close>, \<open>-\<close>, \<open>*\<close>, \<open>/\<close> and for the conversion of a decimal literal or an int.
  Exceptions are values of \<open>py_error\<close>.
\<close>

datatype py_error = OverflowError | ValueError | TypeError | IndexError | OSError

subsection \<open>Rounding to binary64\<close>

text \<open>Round a rational to the nearest integer, ties to the even one.\<close>

definition rhe :: "rat \<Rightarrow> int" where
  "rhe q = (let f = \<lfloor>q\<rfloor>; d = q - of_int f in
     if d < 1/2 then f else if 1/2 < d then f + 1 else if even f then f else f + 1)"

text \<open>The binary exponent of a positive rational: \<open>2 powi ilog2 x \<le> x < 2 powi (ilog2 x + 1)\<close>.\<close>

definition ilog2 :: "rat \<Rightarrow> int" where
  "ilog2 x = (let (n, d) = quotient_of x; k = bitlen n - bitlen d in
     if 2 powi k \<le> x then k else k - 1)"

text \<open>
  The spacing of binary64 values around \<open>x\<close>: 52 fraction bits below the leading bit, and
  never finer than the subnormal spacing \<open>2 powi (- 1074)\<close>.
\<close>

definition ulp :: "rat \<Rightarrow> rat" where
  "ulp x = 2 powi (max (ilog2 \<bar>x\<bar>) (- 1022) - 52)"

definition fl :: "rat \<Rightarrow> rat" where
  "fl x = (if x = 0 then 0 else of_int (rhe (x / ulp x)) * ulp x)"

text \<open>A rounded result of magnitude \<open>2 ^ 1024\<close> or more is an infinity in binary64.\<close>

definition is_finite :: "rat \<Rightarrow> bool" where
  "is_finite v \<longleftrightarrow> \<bar>v\<bar> < 2 ^ 1024"

definition fadd :: "rat \<Rightarrow> rat \<Rightarrow> rat" where
  "fadd x y = fl (x + y)"

definition fsub :: "rat \<Rightarrow> rat \<Rightarrow> rat" where
  "fsub x y = fl (x - y)"

definition fmul :: "rat \<Rightarrow> rat \<Rightarrow> rat" where
  "fmul x y = fl (x * y)"

definition fdiv :: "rat \<Rightarrow> rat \<Rightarrow> rat" where
  "fdiv x y = fl (x / y)"

text \<open>A decimal float literal such as \<open>0.62\<close> denotes the binary64 value nearest to it.\<close>

definition flit :: "rat \<Rightarrow> rat" where
  "flit q = fl q"

text \<open>\<open>int(x)\<close> on a finite float truncates toward zero.\<close>

definition py_int :: "rat \<Rightarrow> int" where
  "py_int v = (if 0 \<le> v then \<lfloor>v\<rfloor> else \<lceil>v\<rceil>)"

text \<open>
  An int operand of a float operation is converted to float first; the conversion rounds
  and raises OverflowError when the int is too large for a float.
\<close>

definition float_of_int :: "int \<Rightarrow> py_error + rat" where
  "float_of_int n = (let v = fl (of_int n) in if is_finite v then Inr v else Inl OverflowError)"

subsection \<open>lerp_color\<close>

text \<open>
  One channel of \<open>lerp_color\<close>: the expression \<open>int(a + (b - a) * t)\<close> with ints \<open>a\<close>, \<open>b\<close>
  and a finite float \<open>t\<close>. The difference \<open>b - a\<close> is exact int arithmetic; the product and
  the sum are float operations. An infinite product or sum reaches \<open>int()\<close>, which raises
  OverflowError on an infinity.
\<close>

definition lerp_channel :: "int \<Rightarrow> int \<Rightarrow> rat \<Rightarrow> py_error + int" where
  "lerp_channel a b t =
     (case float_of_int (b - a) of
        Inl e \<Rightarrow> Inl e
      | Inr d \<Rightarrow>
          (let p = fmul d t in
           case float_of_int a of
             Inl e \<Rightarrow> Inl e
           | Inr fa \<Rightarrow>
               (let s = fadd fa p in
                if is_finite p \<and> is_finite s then Inr (py_int s) else Inl OverflowError)))"

text \<open>
  \<open>tuple(int(a + (b - a) * t) for a, b in zip(color_a, color_b))\<close>: the channels are
  computed left to right, \<open>zip\<close> stops at the end of the shorter tuple, and the first
  exception ends the call.
\<close>

fun lerp_color :: "int list \<Rightarrow> int list \<Rightarrow> rat \<Rightarrow> py_error + int list" where
  "lerp_color (a # as) (b # bs) t =
     (case lerp_channel a b t of
        Inl e \<Rightarrow> Inl e
      | Inr c \<Rightarrow> (case lerp_color as bs t of Inl e \<Rightarrow> Inl e | Inr cs \<Rightarrow> Inr (c # cs)))"
| "lerp_color [] bs t = Inr []"
| "lerp_color as [] t = Inr []"

text \<open>The channels of a colour are exactly representable ints; every 8-bit channel is.\<close>

definition channel_ok :: "int \<Rightarrow> bool" where
  "channel_ok c \<longleftrightarrow> \<bar>c\<bar> < 2 ^ 52"

text \<open>The float value of \<open>a + (b - a) * t\<close>, before \<open>int()\<close> is applied.\<close>

definition interp :: "int \<Rightarrow> int \<Rightarrow> rat \<Rightarrow> rat" where
  "interp a b t = fadd (of_int a) (fmul (of_int (b - a)) t)"

text \<open>
  Truncation as the specification words it: \<open>c\<close> is \<open>v\<close> with its fractional part dropped,
  that is the integer of the same sign as \<open>v\<close> whose magnitude is the largest not above
  that of \<open>v\<close> (rounding to nearest would go up from one half on).
\<close>

definition truncation :: "rat \<Rightarrow> int \<Rightarrow> bool" where
  "truncation v c \<longleftrightarrow> \<bar>of_int c\<bar> \<le> \<bar>v\<bar> \<and> \<bar>v\<bar> < \<bar>of_int c\<bar> + 1 \<and> 0 \<le> of_int c * v"

section \<open>Images and the libraries the script calls\<close>

text \<open>
  A Pillow image is its size and its pixels; the mode is the pixel type: \<open>u8\<close> for mode
  \<open>L\<close>, \<open>rgb\<close> for \<open>RGB\<close>, \<open>rgba\<close> for \<open>RGBA\<close>, every channel one byte. Python colour
  tuples are tuples of ints (\<open>ink3\<close>, \<open>ink4\<close>); Pillow clips each int to a byte when it
  stores it.
\<close>

type_synonym u8 = "8 word"
type_synonym rgb = "u8 \<times> u8 \<times> u8"
type_synonym rgba = "u8 \<times> u8 \<times> u8 \<times> u8"
type_synonym ink3 = "int \<times> int \<times> int"
type_synonym ink4 = "int \<times> int \<times> int \<times> int"
type_synonym bbox = "rat \<times> rat \<times> rat \<times> rat"

record 'p image =
  width :: nat
  height :: nat
  pix :: "nat \<Rightarrow> nat \<Rightarrow> 'p"

definition WIDTH :: nat where
  "WIDTH = 1440"

definition HEIGHT :: nat where
  "HEIGHT = 960"

subsection \<open>PALETTE\<close>

definition navy_top :: ink3 where
  "navy_top = (9, 23, 48)"

definition navy_bottom :: ink3 where
  "navy_bottom = (36, 12, 64)"

definition overlay_start :: ink3 where
  "overlay_start = (15, 44, 84)"

definition overlay_end :: ink3 where
  "overlay_end = (55, 16, 95)"

definition panel :: ink4 where
  "panel = (22, 33, 66, 220)"

definition cyan :: ink3 where
  "cyan = (94, 234, 212)"

definition magenta :: ink3 where
  "magenta = (244, 114, 182)"

definition amber :: ink3 where
  "amber = (252, 211, 77)"

definition indigo :: ink3 where
  "indigo = (129, 140, 248)"

text \<open>\<open>(*color, alpha)\<close>: a 3-tuple extended by an alpha channel.\<close>

definition with_alpha :: "ink3 \<Rightarrow> int \<Rightarrow> ink4" where
  "with_alpha c a = (case c of (r, g, b) \<Rightarrow> (r, g, b, a))"

text \<open>A 3-tuple as the argument of \<open>lerp_color\<close>, which takes tuples of any length.\<close>

definition tuple3 :: "ink3 \<Rightarrow> int list" where
  "tuple3 c = (case c of (r, g, b) \<Rightarrow> [r, g, b])"

subsection \<open>What the libraries compute\<close>

text \<open>
  The geometric primitives handed to Pillow's rasteriser: the area of an ellipse, of a
  rounded rectangle and of a rectangle, the border of a rounded rectangle with its
  thickness, and a polyline with its thickness and whether its joints are curved.
\<close>

datatype shape =
    EllipseArea bbox
  | RoundedRectArea bbox int
  | RoundedRectBorder bbox int int
  | LineStroke "(rat \<times> rat) list" int bool
  | RectArea bbox

text \<open>
  The code of Pillow and of the C maths library is not part of the repository. What they
  compute is a parameter of the model: \<open>math.sin\<close>, \<open>math.cos\<close> and the float power
  \<open>x ** y\<close> on floats; the pixels a primitive covers (\<open>covers\<close>); the pixels of a Gaussian
  blur of a given radius on a single-band and on an RGBA image; and the colour
  \<open>Image.alpha_composite\<close> gives a pixel from the backdrop's and the source's pixel
  (\<open>over_px\<close>). What the script decides (which calls, with which arguments, in which
  order, on images of which size) is modelled in full.
\<close>

record lib =
  math_sin :: "rat \<Rightarrow> rat"
  math_cos :: "rat \<Rightarrow> rat"
  float_pow :: "rat \<Rightarrow> rat \<Rightarrow> rat"
  covers :: "shape \<Rightarrow> nat \<Rightarrow> nat \<Rightarrow> bool"
  blur_l :: "rat \<Rightarrow> nat \<Rightarrow> nat \<Rightarrow> (nat \<Rightarrow> nat \<Rightarrow> u8) \<Rightarrow> (nat \<Rightarrow> nat \<Rightarrow> u8)"
  blur_rgba :: "rat \<Rightarrow> nat \<Rightarrow> nat \<Rightarrow> (nat \<Rightarrow> nat \<Rightarrow> rgba) \<Rightarrow> (nat \<Rightarrow> nat \<Rightarrow> rgba)"
  over_px :: "rgba \<Rightarrow> rgba \<Rightarrow> rgba"

subsection \<open>Pillow operations\<close>

text \<open>Pillow stores an int channel as a byte, clipped to 0..255.\<close>

definition clip8 :: "int \<Rightarrow> u8" where
  "clip8 v = word_of_int (max 0 (min 255 v))"

definition ink_rgba :: "ink4 \<Rightarrow> rgba" where
  "ink_rgba c = (case c of (r, g, b, a) \<Rightarrow> (clip8 r, clip8 g, clip8 b, clip8 a))"

text \<open>\<open>Image.new(mode, (w, h), color)\<close>.\<close>

definition new_image :: "nat \<Rightarrow> nat \<Rightarrow> 'p \<Rightarrow> 'p image" where
  "new_image w h c = \<lparr>width = w, height = h, pix = (\<lambda>x y. c)\<rparr>"

text \<open>
  \<open>pixels[x, y] = color\<close> through \<open>Image.load()\<close>, for a colour that is a tuple of ints of
  any length: Pillow takes three or four ints for an RGB or RGBA pixel (a missing alpha
  is 255, an alpha given for an RGB pixel is dropped) and raises TypeError otherwise; a
  position outside the image raises IndexError.
\<close>

definition putpixel_rgb :: "rgb image \<Rightarrow> nat \<Rightarrow> nat \<Rightarrow> int list \<Rightarrow> py_error + rgb image" where
  "putpixel_rgb img x y c =
     (if \<not> (x < width img \<and> y < height img) then Inl IndexError
      else if length c = 3 \<or> length c = 4
      then Inr (img\<lparr>pix := (pix img)(x := (pix img x)(y := (clip8 (c ! 0), clip8 (c ! 1), clip8 (c ! 2))))\<rparr>)
      else Inl TypeError)"

definition putpixel_rgba :: "rgba image \<Rightarrow> nat \<Rightarrow> nat \<Rightarrow> int list \<Rightarrow> py_error + rgba image" where
  "putpixel_rgba img x y c =
     (if \<not> (x < width img \<and> y < height img) then Inl IndexError
      else if length c = 3 \<or> length c = 4
      then Inr (img\<lparr>pix := (pix img)(x := (pix img x)(y :=
             (clip8 (c ! 0), clip8 (c ! 1), clip8 (c ! 2), if length c = 4 then clip8 (c ! 3) else 255)))\<rparr>)
      else Inl TypeError)"

text \<open>\<open>convert("RGBA")\<close> of an RGB image adds an opaque alpha; \<open>convert("RGB")\<close> drops the alpha.\<close>

definition convert_rgba :: "rgb image \<Rightarrow> rgba image" where
  "convert_rgba img =
     \<lparr>width = width img, height = height img,
      pix = (\<lambda>x y. case pix img x y of (r, g, b) \<Rightarrow> (r, g, b, 255))\<rparr>"

definition convert_rgb :: "rgba image \<Rightarrow> rgb image" where
  "convert_rgb img =
     \<lparr>width = width img, height = height img,
      pix = (\<lambda>x y. case pix img x y of (r, g, b, a) \<Rightarrow> (r, g, b))\<rparr>"

text \<open>
  \<open>Image.alpha_composite(im1, im2)\<close>: both images are RGBA (their type here); images of
  different sizes raise ValueError; the result has the size of both, each pixel computed
  from the two pixels at its position.
\<close>

definition alpha_composite :: "lib \<Rightarrow> rgba image \<Rightarrow> rgba image \<Rightarrow> py_error + rgba image" where
  "alpha_composite L im1 im2 =
     (if width im1 = width im2 \<and> height im1 = height im2
      then Inr \<lparr>width = width im1, height = height im1,
                pix = (\<lambda>x y. over_px L (pix im1 x y) (pix im2 x y))\<rparr>
      else Inl ValueError)"

text \<open>\<open>layer.putalpha(mask)\<close>: the mask becomes the alpha band; a mask of another size raises.\<close>

definition putalpha :: "rgba image \<Rightarrow> u8 image \<Rightarrow> py_error + rgba image" where
  "putalpha img alpha =
     (if width img = width alpha \<and> height img = height alpha
      then Inr (img\<lparr>pix := (\<lambda>x y. case pix img x y of (r, g, b, a) \<Rightarrow> (r, g, b, pix alpha x y))\<rparr>)
      else Inl ValueError)"

text \<open>\<open>img.filter(ImageFilter.GaussianBlur(radius))\<close>: an image of the same mode and size.\<close>

definition gaussian_blur_l :: "lib \<Rightarrow> rat \<Rightarrow> u8 image \<Rightarrow> u8 image" where
  "gaussian_blur_l L radius img = img\<lparr>pix := blur_l L radius (width img) (height img) (pix img)\<rparr>"

definition gaussian_blur_rgba :: "lib \<Rightarrow> rat \<Rightarrow> rgba image \<Rightarrow> rgba image" where
  "gaussian_blur_rgba L radius img =
     img\<lparr>pix := blur_rgba L radius (width img) (height img) (pix img)\<rparr>"

text \<open>
  The calls on an \<open>ImageDraw.Draw\<close> object that the script makes, with the arguments it
  passes: \<open>ellipse(bbox, fill)\<close>, \<open>rounded_rectangle(bbox, radius, fill, outline, width)\<close>,
  \<open>line(points, fill, width, joint)\<close> (the flag says \<open>joint="curve"\<close>) and
  \<open>rectangle(bbox, fill)\<close>.
\<close>

datatype 'i draw_call =
    Ellipse bbox 'i
  | RoundedRectangle bbox int 'i "'i option" int
  | Line "(rat \<times> rat) list" 'i int bool
  | Rectangle bbox 'i

text \<open>
  ImageDraw writes the ink into every pixel of the image that the primitive covers and
  leaves the others as they are (no blending: the layers drawn on have the mode of the
  ink). An outline is written after the fill.
\<close>

definition paint :: "(nat \<Rightarrow> nat \<Rightarrow> bool) \<Rightarrow> 'p \<Rightarrow> 'p image \<Rightarrow> 'p image" where
  "paint R c img =
     img\<lparr>pix := (\<lambda>x y. if x < width img \<and> y < height img \<and> R x y then c else pix img x y)\<rparr>"

fun draw :: "lib \<Rightarrow> ('i \<Rightarrow> 'p) \<Rightarrow> 'i draw_call \<Rightarrow> 'p image \<Rightarrow> 'p image" where
  "draw L ink (Ellipse bb fill) img = paint (covers L (EllipseArea bb)) (ink fill) img"
| "draw L ink (RoundedRectangle bb radius fill None w) img =
     paint (covers L (RoundedRectArea bb radius)) (ink fill) img"
| "draw L ink (RoundedRectangle bb radius fill (Some outline) w) img =
     paint (covers L (RoundedRectBorder bb radius w)) (ink outline)
       (paint (covers L (RoundedRectArea bb radius)) (ink fill) img)"
| "draw L ink (Line pts fill w curve) img = paint (covers L (LineStroke pts w curve)) (ink fill) img"
| "draw L ink (Rectangle bb fill) img = paint (covers L (RectArea bb)) (ink fill) img"

text \<open>A sequence of draw calls on one image, first call first.\<close>

definition draw_all :: "lib \<Rightarrow> ('i \<Rightarrow> 'p) \<Rightarrow> 'i draw_call list \<Rightarrow> 'p image \<Rightarrow> 'p image" where
  "draw_all L ink calls img = foldl (\<lambda>im c. draw L ink c im) img calls"

subsection \<open>Loops\<close>

text \<open>A \<open>for\<close> loop over a list whose body may raise: the first exception ends the loop.\<close>

fun foldM :: "('a \<Rightarrow> 's \<Rightarrow> 'e + 's) \<Rightarrow> 'a list \<Rightarrow> 's \<Rightarrow> 'e + 's" where
  "foldM f [] s = Inr s"
| "foldM f (x # xs) s = (case f x s of Inl e \<Rightarrow> Inl e | Inr s' \<Rightarrow> foldM f xs s')"

text \<open>
  \<open>range(start, stop, step)\<close> for a step that is not zero (a zero step raises in Python;
  the script passes the constants 120 and -12).
\<close>

function py_range :: "int \<Rightarrow> int \<Rightarrow> int \<Rightarrow> int list" where
  "py_range start stop step =
     (if (0 < step \<and> start < stop) \<or> (step < 0 \<and> stop < start)
      then start # py_range (start + step) stop step else [])"
  by pat_completeness auto
termination
  by (relation "measure (\<lambda>(start, stop, step). nat (if 0 < step then stop - start else start - stop))")
    auto

declare py_range.simps [simp del]

section \<open>The stages of the pipeline\<close>

subsection \<open>paint_background\<close>

text \<open>\<open>t = y / (HEIGHT - 1)\<close> in pass \<open>y\<close> of the base loop.\<close>

definition row_t :: "nat \<Rightarrow> rat" where
  "row_t y = fdiv (of_nat y) (of_nat (HEIGHT - 1))"

text \<open>The body of \<open>for y in range(HEIGHT)\<close>: one colour per row, written to every \<open>x\<close>.\<close>

definition base_row :: "nat \<Rightarrow> rgb image \<Rightarrow> py_error + rgb image" where
  "base_row y base =
     (let t = row_t y in
      case lerp_color (tuple3 navy_top) (tuple3 navy_bottom) t of
        Inl e \<Rightarrow> Inl e
      | Inr color \<Rightarrow> foldM (\<lambda>x img. putpixel_rgb img x y color) [0..<WIDTH] base)"

text \<open>\<open>t = x / (WIDTH - 1)\<close> in pass \<open>x\<close> of the overlay loop.\<close>

definition column_t :: "nat \<Rightarrow> rat" where
  "column_t x = fdiv (of_nat x) (of_nat (WIDTH - 1))"

text \<open>\<open>int(90 * (1 - abs(0.5 - t) * 2))\<close>.\<close>

definition overlay_alpha :: "rat \<Rightarrow> int" where
  "overlay_alpha t = py_int (fmul 90 (fsub 1 (fmul \<bar>fsub (1/2) t\<bar> 2)))"

text \<open>The body of \<open>for x in range(WIDTH)\<close>: one colour and alpha per column.\<close>

definition overlay_column :: "nat \<Rightarrow> rgba image \<Rightarrow> py_error + rgba image" where
  "overlay_column x overlay =
     (let t = column_t x in
      case lerp_color (tuple3 overlay_start) (tuple3 overlay_end) t of
        Inl e \<Rightarrow> Inl e
      | Inr color \<Rightarrow>
          (let alpha = overlay_alpha t in
           foldM (\<lambda>y img. putpixel_rgba img x y (color @ [alpha])) [0..<HEIGHT] overlay))"

definition background_base :: "py_error + rgb image" where
  "background_base = foldM base_row [0..<HEIGHT] (new_image WIDTH HEIGHT (0, 0, 0))"

definition background_overlay :: "py_error + rgba image" where
  "background_overlay = foldM overlay_column [0..<WIDTH] (new_image WIDTH HEIGHT (ink_rgba (0, 0, 0, 0)))"

definition paint_background :: "lib \<Rightarrow> py_error + rgba image" where
  "paint_background L =
     (case background_base of
        Inl e \<Rightarrow> Inl e
      | Inr base \<Rightarrow>
          (case background_overlay of
             Inl e \<Rightarrow> Inl e
           | Inr overlay \<Rightarrow> alpha_composite L (convert_rgba base) overlay))"

subsection \<open>add_highlights\<close>

definition highlight_center :: "int \<times> int" where
  "highlight_center =
     (py_int (fmul (of_nat WIDTH) (flit (62/100))), py_int (fmul (of_nat HEIGHT) (flit (38/100))))"

definition max_radius :: int where
  "max_radius = py_int (fmul (of_nat WIDTH) (flit (75/100)))"

text \<open>\<open>int(255 * (1 - radius / max_radius) ** 2)\<close>.\<close>

definition highlight_alpha :: "lib \<Rightarrow> int \<Rightarrow> int" where
  "highlight_alpha L radius =
     py_int (fmul 255 (float_pow L (fsub 1 (fdiv (of_int radius) (of_int max_radius))) 2))"

definition highlight_bbox :: "int \<Rightarrow> bbox" where
  "highlight_bbox radius =
     (case highlight_center of (cx, cy) \<Rightarrow>
        (of_int (cx - radius), of_int (cy - radius), of_int (cx + radius), of_int (cy + radius)))"

definition highlight_radii :: "int list" where
  "highlight_radii = py_range max_radius 0 (- 12)"

definition highlight_calls :: "lib \<Rightarrow> int draw_call list" where
  "highlight_calls L =
     map (\<lambda>radius. Ellipse (highlight_bbox radius) (highlight_alpha L radius)) highlight_radii"

text \<open>The mask \<open>highlight\<close> after the loop, before it is blurred.\<close>

definition highlight_mask :: "lib \<Rightarrow> u8 image" where
  "highlight_mask L = draw_all L clip8 (highlight_calls L) (new_image WIDTH HEIGHT (clip8 0))"

definition add_highlights :: "lib \<Rightarrow> rgba image \<Rightarrow> py_error + rgba image" where
  "add_highlights L canvas =
     (let soft = gaussian_blur_l L 180 (highlight_mask L) in
      case putalpha (new_image WIDTH HEIGHT (ink_rgba (110, 170, 255, 0))) soft of
        Inl e \<Rightarrow> Inl e
      | Inr layer \<Rightarrow> alpha_composite L canvas layer)"

subsection \<open>add_grid\<close>

definition grid_calls :: "ink4 draw_call list" where
  "grid_calls =
     (let line_color = (255, 255, 255, 28) in
      map (\<lambda>x. Line [(of_int x, 0), (of_int x, of_nat HEIGHT)] line_color 1 False)
        (py_range 0 (int WIDTH) 120)
      @ map (\<lambda>y. Line [(0, of_int y), (of_nat WIDTH, of_int y)] line_color 1 False)
        (py_range 0 (int HEIGHT) 120))"

definition add_grid :: "lib \<Rightarrow> rgba image \<Rightarrow> py_error + rgba image" where
  "add_grid L canvas =
     (let grid = draw_all L ink_rgba grid_calls (new_image WIDTH HEIGHT (ink_rgba (0, 0, 0, 0)));
          blurred = gaussian_blur_rgba L (flit (12/10)) grid
      in alpha_composite L canvas blurred)"

subsection \<open>add_panels\<close>

text \<open>\<open>main_panel = [WIDTH * 0.2, HEIGHT * 0.18, WIDTH * 0.68, HEIGHT * 0.74]\<close>.\<close>

definition main_panel :: bbox where
  "main_panel =
     (fmul (of_nat WIDTH) (flit (2/10)), fmul (of_nat HEIGHT) (flit (18/100)),
      fmul (of_nat WIDTH) (flit (68/100)), fmul (of_nat HEIGHT) (flit (74/100)))"

definition mp0 :: rat where
  "mp0 = (case main_panel of (x0, y0, x1, y1) \<Rightarrow> x0)"

definition mp1 :: rat where
  "mp1 = (case main_panel of (x0, y0, x1, y1) \<Rightarrow> y0)"

definition mp2 :: rat where
  "mp2 = (case main_panel of (x0, y0, x1, y1) \<Rightarrow> x1)"

definition mp3 :: rat where
  "mp3 = (case main_panel of (x0, y0, x1, y1) \<Rightarrow> y1)"

definition main_panel_call :: "ink4 draw_call" where
  "main_panel_call = RoundedRectangle main_panel 48 panel (Some (146, 161, 255, 140)) 4"

text \<open>The three dots: \<open>for idx, color in enumerate([cyan, magenta, amber])\<close>.\<close>

definition light_call :: "nat \<Rightarrow> ink3 \<Rightarrow> ink4 draw_call" where
  "light_call idx color =
     (let light_radius = 14;
          cx = fadd (fadd mp0 48) (of_nat (idx * 46));
          cy = fadd mp1 46
      in Ellipse (fsub cx light_radius, fsub cy light_radius, fadd cx light_radius, fadd cy light_radius)
           (with_alpha color 220))"

definition light_calls :: "ink4 draw_call list" where
  "light_calls = map (\<lambda>(idx, color). light_call idx color) (enumerate 0 [cyan, magenta, amber])"

definition nav_x :: rat where
  "nav_x = fadd mp0 48"

definition nav_top :: rat where
  "nav_top = fadd mp1 96"

text \<open>The navigation list: \<open>for i in range(6)\<close>.\<close>

definition nav_call :: "nat \<Rightarrow> ink4 draw_call" where
  "nav_call i =
     (let block_height = 48;
          y0 = fadd nav_top (of_nat (i * (block_height + 18)));
          y1 = fadd y0 (of_nat block_height);
          alpha = 160 - int i * 14;
          color = with_alpha indigo alpha
      in RoundedRectangle (nav_x, y0, fadd nav_x 220, y1) 14 color None 1)"

definition nav_calls :: "ink4 draw_call list" where
  "nav_calls = map nav_call [0..<6]"

definition chart_left :: rat where
  "chart_left = fadd nav_x 260"

definition chart_top :: rat where
  "chart_top = fadd mp1 110"

definition chart_right :: rat where
  "chart_right = fsub mp2 64"

definition chart_bottom :: rat where
  "chart_bottom = fsub mp3 90"

definition bar_width :: nat where
  "bar_width = 42"

definition accents :: "ink3 list" where
  "accents = [cyan, magenta, amber, indigo]"

text \<open>\<open>baseline = chart_top + row * 160\<close>.\<close>

definition baseline :: "nat \<Rightarrow> rat" where
  "baseline row = fadd chart_top (of_nat (row * 160))"

text \<open>
  \<open>value = math.sin((row + col / 2) * 0.7) * 0.3 + 0.6\<close> and \<open>height_value = value * 120\<close>.
\<close>

definition height_value :: "lib \<Rightarrow> nat \<Rightarrow> nat \<Rightarrow> rat" where
  "height_value L row col =
     (let v = fadd (fmul (math_sin L (fmul (fadd (of_nat row) (fdiv (of_nat col) 2)) (flit (7/10))))
                     (flit (3/10))) (flit (6/10))
      in fmul v 120)"

text \<open>The body of the chart's inner loop: the bar of one row and column.\<close>

definition bar_call :: "lib \<Rightarrow> nat \<Rightarrow> nat \<Rightarrow> ink4 draw_call" where
  "bar_call L row col =
     (let x0 = fadd chart_left (of_nat (col * (bar_width + 22)));
          x1 = fadd x0 (of_nat bar_width);
          y0 = fsub (baseline row) (height_value L row col);
          y1 = baseline row;
          color = accents ! ((row + col) mod length accents)
      in RoundedRectangle (x0, y0, x1, y1) 12 (with_alpha color 220) None 1)"

text \<open>\<open>for row in range(3): ... for col in range(7): ...\<close>, the calls in the order made.\<close>

definition bar_calls :: "lib \<Rightarrow> ink4 draw_call list" where
  "bar_calls L = concat (map (\<lambda>row. map (\<lambda>col. bar_call L row col) [0..<7]) [0..<3])"

definition sparkline_point :: "lib \<Rightarrow> nat \<Rightarrow> rat \<times> rat" where
  "sparkline_point L idx =
     (let x = fadd chart_left (fmul (of_nat idx) (fdiv (fsub chart_right chart_left) 9));
          y = fsub (fsub chart_bottom 120) (fmul (math_cos L (fmul (of_nat idx) (flit (6/10)))) 70)
      in (x, y))"

definition sparkline_points :: "lib \<Rightarrow> (rat \<times> rat) list" where
  "sparkline_points L = map (sparkline_point L) [0..<10]"

definition sparkline_calls :: "lib \<Rightarrow> ink4 draw_call list" where
  "sparkline_calls L =
     Line (sparkline_points L) (with_alpha cyan 200) 6 True
     # map (\<lambda>(x, y). Ellipse (fsub x 9, fsub y 9, fadd x 9, fadd y 9) (15, 255, 204, 230))
         (sparkline_points L)"

definition float_cards :: "(rat \<times> rat \<times> rat \<times> rat \<times> ink3) list" where
  "float_cards =
     [(fmul (of_nat WIDTH) (flit (74/100)), fmul (of_nat HEIGHT) (flit (24/100)),
       fmul (of_nat WIDTH) (flit (92/100)), fmul (of_nat HEIGHT) (flit (42/100)), cyan),
      (fmul (of_nat WIDTH) (flit (74/100)), fmul (of_nat HEIGHT) (flit (46/100)),
       fmul (of_nat WIDTH) (flit (94/100)), fmul (of_nat HEIGHT) (flit (62/100)), magenta),
      (fmul (of_nat WIDTH) (flit (70/100)), fmul (of_nat HEIGHT) (flit (66/100)),
       fmul (of_nat WIDTH) (flit (92/100)), fmul (of_nat HEIGHT) (flit (82/100)), amber)]"

text \<open>The five calls of one floating card.\<close>

definition card_calls :: "rat \<times> rat \<times> rat \<times> rat \<times> ink3 \<Rightarrow> ink4 draw_call list" where
  "card_calls fc =
     (case fc of (x0, y0, x1, y1, color) \<Rightarrow>
        (let cx = fadd x0 64;
             cy = fdiv (fadd y0 y1) 2
         in [RoundedRectangle (x0, y0, x1, y1) 36 (18, 28, 58, 200) (Some (with_alpha color 180)) 4,
             Ellipse (fsub cx 28, fsub cy 28, fadd cx 28, fadd cy 28) (with_alpha color 210),
             Ellipse (fsub cx 16, fsub cy 16, fadd cx 16, fadd cy 16) (15, 18, 40, 255),
             Line [(fadd cx 48, fsub cy 18), (fsub x1 36, fsub cy 18)] (with_alpha color 160) 10 False,
             Line [(fadd cx 48, fadd cy 18), (fsub x1 48, fadd cy 18)] (220, 225, 255, 140) 8 False]))"

definition panel_calls :: "lib \<Rightarrow> ink4 draw_call list" where
  "panel_calls L =
     main_panel_call # light_calls @ nav_calls @ bar_calls L @ sparkline_calls L
     @ concat (map card_calls float_cards)"

definition add_panels :: "lib \<Rightarrow> rgba image \<Rightarrow> py_error + rgba image" where
  "add_panels L canvas =
     (let layer = draw_all L ink_rgba (panel_calls L) (new_image WIDTH HEIGHT (ink_rgba (0, 0, 0, 0)))
      in alpha_composite L canvas layer)"

subsection \<open>add_particles\<close>

text \<open>
  The module-level generator of \<open>random\<close> is a state; its functions are parameters of
  the model, as the library's code is not part of the repository: \<open>random.seed(n)\<close> gives
  the next state, \<open>random.randint(a, b)\<close> and \<open>random.choice(seq)\<close> give a value and the
  next state.
\<close>

record 's rng =
  rng_seed :: "int \<Rightarrow> 's \<Rightarrow> 's"
  rng_randint :: "int \<Rightarrow> int \<Rightarrow> 's \<Rightarrow> int \<times> 's"
  rng_choice :: "ink4 list \<Rightarrow> 's \<Rightarrow> ink4 \<times> 's"

definition particle_options :: "ink4 list" where
  "particle_options = [with_alpha cyan 0, with_alpha magenta 0, (180, 200, 255, 0)]"

text \<open>\<open>base_color[:3] + (alpha,)\<close>.\<close>

definition particle_fill :: "ink4 \<Rightarrow> int \<Rightarrow> ink4" where
  "particle_fill base_color alpha = (case base_color of (r, g, b, a) \<Rightarrow> (r, g, b, alpha))"

text \<open>
  \<open>for _ in range(n)\<close>: each pass draws five values from the generator and makes one
  \<open>draw.ellipse\<close> call; the result is the calls in the order made and the generator's
  state after the loop.
\<close>

fun particle_loop :: "'s rng \<Rightarrow> nat \<Rightarrow> 's \<Rightarrow> ink4 draw_call list \<times> 's" where
  "particle_loop G 0 s = ([], s)"
| "particle_loop G (Suc n) s =
     (let (x, s1) = rng_randint G 0 (int WIDTH) s;
          (y, s2) = rng_randint G 0 (int HEIGHT) s1;
          (r, s3) = rng_randint G 2 5 s2;
          (alpha, s4) = rng_randint G 90 160 s3;
          (base_color, s5) = rng_choice G particle_options s4;
          call = Ellipse (of_int (x - r), of_int (y - r), of_int (x + r), of_int (y + r))
                   (particle_fill base_color alpha);
          (calls, s') = particle_loop G n s5
      in (call # calls, s'))"

text \<open>\<open>random.seed(42)\<close>, then the loop of 140 passes.\<close>

definition particle_calls :: "'s rng \<Rightarrow> 's \<Rightarrow> ink4 draw_call list \<times> 's" where
  "particle_calls G s = particle_loop G 140 (rng_seed G 42 s)"

definition add_particles :: "lib \<Rightarrow> 's rng \<Rightarrow> rgba image \<Rightarrow> 's \<Rightarrow> (py_error + rgba image) \<times> 's" where
  "add_particles L G canvas s =
     (let (calls, s') = particle_calls G s;
          particle_layer = draw_all L ink_rgba calls (new_image WIDTH HEIGHT (ink_rgba (0, 0, 0, 0)));
          blurred = gaussian_blur_rgba L (flit (6/10)) particle_layer
      in (alpha_composite L canvas blurred, s'))"

subsection \<open>add_vignette\<close>

definition focus_bbox :: bbox where
  "focus_bbox =
     (fsub (fmul (of_nat WIDTH) (flit (2/10))) 160, fsub (fmul (of_nat HEIGHT) (flit (18/100))) 120,
      fadd (fmul (of_nat WIDTH) (flit (68/100))) 160, fadd (fmul (of_nat HEIGHT) (flit (74/100))) 180)"

definition add_vignette :: "lib \<Rightarrow> rgba image \<Rightarrow> py_error + rgba image" where
  "add_vignette L canvas =
     (let vignette = draw L clip8 (Rectangle (0, 0, of_nat WIDTH, of_nat HEIGHT) 255)
                       (new_image WIDTH HEIGHT (clip8 0));
          vignette = gaussian_blur_l L 180 vignette
      in case putalpha (new_image WIDTH HEIGHT (ink_rgba (5, 10, 30, 0))) vignette of
           Inl e \<Rightarrow> Inl e
         | Inr layer \<Rightarrow>
             (let focus = draw L clip8 (Ellipse focus_bbox 220) (new_image WIDTH HEIGHT (clip8 0));
                  focus = gaussian_blur_l L 120 focus
              in case putalpha (new_image WIDTH HEIGHT (ink_rgba (255, 255, 255, 0))) focus of
                   Inl e \<Rightarrow> Inl e
                 | Inr focus_layer \<Rightarrow>
                     (case alpha_composite L canvas layer of
                        Inl e \<Rightarrow> Inl e
                      | Inr result \<Rightarrow> alpha_composite L result focus_layer)))"

section \<open>render and main\<close>

text \<open>
  The first eight lines of \<open>render\<close>: the canvas goes through the six stages and is
  converted to RGB. The result is the image \<open>final\<close> (or the exception raised) and the
  state of the random generator after the run.
\<close>

definition render_image :: "lib \<Rightarrow> 's rng \<Rightarrow> 's \<Rightarrow> (py_error + rgb image) \<times> 's" where
  "render_image L G s =
     (case paint_background L of
        Inl e \<Rightarrow> (Inl e, s)
      | Inr c0 \<Rightarrow>
     (case add_highlights L c0 of
        Inl e \<Rightarrow> (Inl e, s)
      | Inr c1 \<Rightarrow>
     (case add_grid L c1 of
        Inl e \<Rightarrow> (Inl e, s)
      | Inr c2 \<Rightarrow>
     (case add_panels L c2 of
        Inl e \<Rightarrow> (Inl e, s)
      | Inr c3 \<Rightarrow>
     (case add_particles L G c3 s of
        (Inl e, s') \<Rightarrow> (Inl e, s')
      | (Inr c4, s') \<Rightarrow>
     (case add_vignette L c4 of
        Inl e \<Rightarrow> (Inl e, s')
      | Inr c5 \<Rightarrow> (Inr (convert_rgb c5), s')))))))"

text \<open>
  A \<open>pathlib\<close> path: whether it is absolute, and its components. \<open>relative_to\<close> strips
  the other path when it is a prefix and raises ValueError when it is not.
\<close>

record path =
  is_absolute :: bool
  parts :: "string list"

definition parent :: "path \<Rightarrow> path" where
  "parent p = p\<lparr>parts := butlast (parts p)\<rparr>"

definition relative_to :: "path \<Rightarrow> path \<Rightarrow> py_error + path" where
  "relative_to p other =
     (if is_absolute p = is_absolute other \<and> take (length (parts other)) (parts p) = parts other
      then Inr \<lparr>is_absolute = False, parts = drop (length (parts other)) (parts p)\<rparr>
      else Inl ValueError)"

fun join_parts :: "string list \<Rightarrow> string" where
  "join_parts [] = []"
| "join_parts [p] = p"
| "join_parts (p # q # ps) = p @ ''/'' @ join_parts (q # ps)"

definition path_str :: "path \<Rightarrow> string" where
  "path_str p =
     (if is_absolute p then ''/'' @ join_parts (parts p)
      else if parts p = [] then ''.'' else join_parts (parts p))"

text \<open>
  The file system is outside the script: creating the parent directories and saving the
  image are parameters, each giving the file system after the call and the exception it
  raised, if any.
\<close>

record 'f filesystem =
  fs_mkdir :: "path \<Rightarrow> 'f \<Rightarrow> py_error option \<times> 'f"
  fs_save :: "rgb image \<Rightarrow> path \<Rightarrow> 'f \<Rightarrow> py_error option \<times> 'f"

text \<open>\<open>render(destination)\<close>: the exception raised, if any, and the state it leaves.\<close>

definition render :: "lib \<Rightarrow> 's rng \<Rightarrow> 'f filesystem \<Rightarrow> path \<Rightarrow> 's \<times> 'f \<Rightarrow> py_error option \<times> 's \<times> 'f" where
  "render L G F destination w =
     (case w of (s, f) \<Rightarrow>
        (case render_image L G s of
           (Inl e, s') \<Rightarrow> (Some e, s', f)
         | (Inr final, s') \<Rightarrow>
             (case fs_mkdir F (parent destination) f of
                (Some e, f1) \<Rightarrow> (Some e, s', f1)
              | (None, f1) \<Rightarrow>
                  (case fs_save F final destination f1 of (r, f2) \<Rightarrow> (r, s', f2)))))"

text \<open>
  What a run of \<open>main\<close> leaves: the exit status of the process (1 after an uncaught
  exception), the lines printed, and the generator and the file system.
\<close>

record ('s, 'f) outcome =
  exit_status :: int
  printed :: "string list"
  world :: "'s \<times> 'f"

text \<open>
  \<open>main\<close>, for the destination that \<open>parse_args\<close> returns (\<open>args.output\<close>) and the working
  directory \<open>Path.cwd()\<close>: render, then print
  \<open>args.output.relative_to(Path.cwd()) if args.output.is_absolute() else args.output\<close>.
\<close>

definition main :: "lib \<Rightarrow> 's rng \<Rightarrow> 'f filesystem \<Rightarrow> path \<Rightarrow> path \<Rightarrow> 's \<times> 'f \<Rightarrow> ('s, 'f) outcome" where
  "main L G F cwd output w =
     (case render L G F output w of
        (Some e, w') \<Rightarrow> \<lparr>exit_status = 1, printed = [], world = w'\<rparr>
      | (None, w') \<Rightarrow>
          (case (if is_absolute output then relative_to output cwd else Inr output) of
             Inl e \<Rightarrow> \<lparr>exit_status = 1, printed = [], world = w'\<rparr>
           | Inr shown \<Rightarrow>
               \<lparr>exit_status = 0, printed = [''[hero-render] wrote '' @ path_str shown], world = w'\<rparr>))"

section \<open>Notions used in the statements\<close>

text \<open>An 8-bit channel value, and the byte that stores it.\<close>

definition byte_ok :: "int \<Rightarrow> bool" where
  "byte_ok c \<longleftrightarrow> 0 \<le> c \<and> c \<le> 255"

text \<open>
  Instances of the parameters, used to exhibit the theorems at concrete inputs: a library
  whose power is the rounded product for the exponent 2, whose rasteriser covers the
  bounding box of an ellipse and nothing else, whose blur is the identity and whose
  composition is alpha-over rounded to the nearest byte; a linear congruential generator;
  and a file system that records the paths saved.
\<close>

definition blend8 :: "u8 \<Rightarrow> u8 \<Rightarrow> u8 \<Rightarrow> u8" where
  "blend8 lower upper a =
     clip8 (rhe ((of_int (uint lower) * (255 - of_int (uint a)) + of_int (uint upper) * of_int (uint a)) / 255))"

definition plain_lib :: lib where
  "plain_lib =
     \<lparr>math_sin = (\<lambda>x. 0),
      math_cos = (\<lambda>x. 1),
      float_pow = (\<lambda>x y. if y = 2 then fmul x x else 1),
      covers = (\<lambda>s x y. case s of
                  EllipseArea (x0, y0, x1, y1) \<Rightarrow>
                    x0 \<le> of_nat x \<and> of_nat x \<le> x1 \<and> y0 \<le> of_nat y \<and> of_nat y \<le> y1
                | _ \<Rightarrow> False),
      blur_l = (\<lambda>radius w h p. p),
      blur_rgba = (\<lambda>radius w h p. p),
      over_px = (\<lambda>d s. case d of (r, g, b, a0) \<Rightarrow> case s of (r', g', b', a) \<Rightarrow>
                   (blend8 r r' a, blend8 g g' a, blend8 b b' a, max a0 a))\<rparr>"

definition lcg :: "nat rng" where
  "lcg =
     \<lparr>rng_seed = (\<lambda>n s. nat \<bar>n\<bar>),
      rng_randint = (\<lambda>a b s. (a + int s mod (b - a + 1), (75 * s + 74) mod 65537)),
      rng_choice = (\<lambda>xs s. (xs ! (s mod length xs), (75 * s + 74) mod 65537))\<rparr>"

definition saving_fs :: "path list filesystem" where
  "saving_fs =
     \<lparr>fs_mkdir = (\<lambda>p f. (None, f)),
      fs_save = (\<lambda>img p f. (None, f @ [p]))\<rparr>"

text \<open>
  The pixel that pass \<open>y\<close> of the base loop stores in its row, and the pixel that pass
  \<open>x\<close> of the overlay loop stores in its column.
\<close>

definition row_pixel :: "nat \<Rightarrow> rgb" where
  "row_pixel y =
     (case lerp_color (tuple3 navy_top) (tuple3 navy_bottom) (row_t y) of
        Inr c \<Rightarrow> (clip8 (c ! 0), clip8 (c ! 1), clip8 (c ! 2))
      | Inl e \<Rightarrow> (0, 0, 0))"

definition column_pixel :: "nat \<Rightarrow> rgba" where
  "column_pixel x =
     (case lerp_color (tuple3 overlay_start) (tuple3 overlay_end) (column_t x) of
        Inr c \<Rightarrow> (clip8 (c ! 0), clip8 (c ! 1), clip8 (c ! 2), clip8 (overlay_alpha (column_t x)))
      | Inl e \<Rightarrow> (0, 0, 0, 0))"




text \<open>
  The calls a run makes on the generator, in the order made. \<open>traced G\<close> is the generator
  \<open>G\<close> that also records every call on it.
\<close>

datatype rng_call = Seed int | Randint int int | Choice "ink4 list"

definition traced :: "'s rng \<Rightarrow> (rng_call list \<times> 's) rng" where
  "traced G =
     \<lparr>rng_seed = (\<lambda>n (tr, s). (tr @ [Seed n], rng_seed G n s)),
      rng_randint = (\<lambda>a b (tr, s). case rng_randint G a b s of (v, s') \<Rightarrow> (v, (tr @ [Randint a b], s'))),
      rng_choice = (\<lambda>xs (tr, s). case rng_choice G xs s of (v, s') \<Rightarrow> (v, (tr @ [Choice xs], s')))\<rparr>"

text \<open>
  The contract of \<open>random.randint(a, b)\<close> and \<open>random.choice(seq)\<close> on the values they
  return: an int of the closed range, an element of the sequence.
\<close>

definition rng_in_range :: "'s rng \<Rightarrow> bool" where
  "rng_in_range G \<longleftrightarrow>
     (\<forall>a b s. a \<le> b \<longrightarrow> a \<le> fst (rng_randint G a b s) \<and> fst (rng_randint G a b s) \<le> b) \<and>
     (\<forall>xs s. xs \<noteq> [] \<longrightarrow> fst (rng_choice G xs s) \<in> set xs)"


text \<open>
  The primitives a draw call hands to the rasteriser, in the order it writes them, and
  whether a call writes the pixel at \<open>(x, y)\<close>.
\<close>

fun call_shapes :: "'i draw_call \<Rightarrow> shape list" where
  "call_shapes (Ellipse bb fill) = [EllipseArea bb]"
| "call_shapes (RoundedRectangle bb radius fill None w) = [RoundedRectArea bb radius]"
| "call_shapes (RoundedRectangle bb radius fill (Some outline) w) =
     [RoundedRectArea bb radius, RoundedRectBorder bb radius w]"
| "call_shapes (Line pts fill w curve) = [LineStroke pts w curve]"
| "call_shapes (Rectangle bb fill) = [RectArea bb]"

definition touches :: "lib \<Rightarrow> 'i draw_call \<Rightarrow> nat \<Rightarrow> nat \<Rightarrow> bool" where
  "touches L c x y = list_ex (\<lambda>s. covers L s x y) (call_shapes c)"

text \<open>
  The instance of the libraries whose rasteriser covers the bounding box of an ellipse, of
  a rounded rectangle and of a rectangle, and nothing of a stroke or a border.
\<close>

definition in_box :: "bbox \<Rightarrow> nat \<Rightarrow> nat \<Rightarrow> bool" where
  "in_box bb x y =
     (case bb of (x0, y0, x1, y1) \<Rightarrow>
        x0 \<le> of_nat x \<and> of_nat x \<le> x1 \<and> y0 \<le> of_nat y \<and> of_nat y \<le> y1)"

definition box_lib :: lib where
  "box_lib =
     plain_lib\<lparr>covers := (\<lambda>s x y. case s of
                  EllipseArea bb \<Rightarrow> in_box bb x y
                | RoundedRectArea bb radius \<Rightarrow> in_box bb x y
                | RectArea bb \<Rightarrow> in_box bb x y
                | _ \<Rightarrow> False)\<rparr>"

section \<open>Properties of the rounding\<close>

lemma rhe_of_int: "rhe (of_int n) = n"
  by (simp add: rhe_def)

lemma rhe_floor: "\<lfloor>q\<rfloor> \<le> rhe q \<and> rhe q \<le> \<lfloor>q\<rfloor> + 1"
  by (simp add: rhe_def Let_def)

lemma rhe_mono:
  assumes "x \<le> y"
  shows "rhe x \<le> rhe y"
proof (cases "\<lfloor>x\<rfloor> = \<lfloor>y\<rfloor>")
  case True
  then show ?thesis using assms by (auto simp: rhe_def Let_def)
next
  case False
  then have "\<lfloor>x\<rfloor> + 1 \<le> \<lfloor>y\<rfloor>" using floor_mono[OF assms] by linarith
  then show ?thesis using rhe_floor[of x] rhe_floor[of y] by linarith
qed

lemma rhe_minus: "rhe (- q) = - rhe q"
proof (cases "of_int \<lfloor>q\<rfloor> = q")
  case True
  then obtain n where "q = of_int n" by metis
  then show ?thesis by (simp add: rhe_of_int flip: of_int_minus)
next
  case False
  then have c: "\<lceil>q\<rceil> = \<lfloor>q\<rfloor> + 1"
    by (metis ceiling_altdef)
  have f: "\<lfloor>- q\<rfloor> = - \<lfloor>q\<rfloor> - 1"
    using c by (simp add: floor_minus)
  show ?thesis
    unfolding rhe_def Let_def f
    by (auto simp: algebra_simps)
qed

lemma rhe_nonneg: "0 \<le> q \<Longrightarrow> 0 \<le> rhe q"
  using rhe_mono[of 0 q] rhe_of_int[of 0] by simp

lemma ilog2_bounds:
  assumes "0 < x"
  shows "2 powi (ilog2 x) \<le> x \<and> x < 2 powi (ilog2 x + 1)"
proof -
  obtain n d where q: "quotient_of x = (n, d)" by (cases "quotient_of x")
  have d: "0 < d" using q quotient_of_denom_pos by blast
  have x: "x = of_int n / of_int d" using q quotient_of_div by blast
  have n: "0 < n" using assms d x
    by (simp add: zero_less_divide_iff)
  define k where "k = bitlen n - bitlen d"
  have bn: "2 ^ nat (bitlen n - 1) \<le> n" "n < 2 ^ nat (bitlen n)"
    using bitlen_bounds[OF n] by auto
  have bd: "2 ^ nat (bitlen d - 1) \<le> d" "d < 2 ^ nat (bitlen d)"
    using bitlen_bounds[OF d] by auto
  have pn: "1 \<le> bitlen n" "1 \<le> bitlen d"
    using n d bitlen_eq_zero_iff[of n] bitlen_eq_zero_iff[of d] bitlen_nonneg[of n] bitlen_nonneg[of d]
    by linarith+
  have rn: "(2::rat) powi (bitlen n - 1) \<le> of_int n" "of_int n < (2::rat) powi (bitlen n)"
  proof -
    have "(of_int (2 ^ nat (bitlen n - 1)) :: rat) \<le> of_int n"
      using bn(1) by (simp only: of_int_le_iff)
    then show "(2::rat) powi (bitlen n - 1) \<le> of_int n"
      using pn by (simp add: power_int_def)
    have "(of_int n :: rat) < of_int (2 ^ nat (bitlen n))"
      using bn(2) by (simp only: of_int_less_iff)
    then show "of_int n < (2::rat) powi (bitlen n)"
      using pn by (simp add: power_int_def)
  qed
  have rd: "(2::rat) powi (bitlen d - 1) \<le> of_int d" "of_int d < (2::rat) powi (bitlen d)"
  proof -
    have "(of_int (2 ^ nat (bitlen d - 1)) :: rat) \<le> of_int d"
      using bd(1) by (simp only: of_int_le_iff)
    then show "(2::rat) powi (bitlen d - 1) \<le> of_int d"
      using pn by (simp add: power_int_def)
    have "(of_int d :: rat) < of_int (2 ^ nat (bitlen d))"
      using bd(2) by (simp only: of_int_less_iff)
    then show "of_int d < (2::rat) powi (bitlen d)"
      using pn by (simp add: power_int_def)
  qed
  have dpos: "(0::rat) < of_int d" using d by simp
  have up: "x < 2 powi (k + 1)"
  proof -
    have "x * of_int d = of_int n" using x dpos by simp
    also have "\<dots> < (2::rat) powi (bitlen n)" by (rule rn(2))
    also have "\<dots> = 2 powi (k + 1) * 2 powi (bitlen d - 1)"
      by (simp add: k_def flip: power_int_add)
    also have "\<dots> \<le> 2 powi (k + 1) * of_int d"
      by (rule mult_left_mono[OF rd(1)]) simp
    finally show ?thesis using dpos by simp
  qed
  have lo: "2 powi (k - 1) < x"
  proof -
    have "(2::rat) powi (k - 1) * of_int d < 2 powi (k - 1) * 2 powi (bitlen d)"
      by (rule mult_strict_left_mono[OF rd(2)]) simp
    also have "\<dots> = 2 powi (bitlen n - 1)"
      by (simp add: k_def flip: power_int_add)
    also have "\<dots> \<le> of_int n" by (rule rn(1))
    also have "\<dots> = x * of_int d" using x dpos by simp
    finally show ?thesis using dpos by simp
  qed
  show ?thesis
    using up lo by (auto simp: ilog2_def q Let_def simp flip: k_def)
qed

lemma ilog2_mono:
  assumes "0 < x" "x \<le> y"
  shows "ilog2 x \<le> ilog2 y"
proof -
  have "(2::rat) powi (ilog2 x) < 2 powi (ilog2 y + 1)"
    using ilog2_bounds[of x] ilog2_bounds[of y] assms by linarith
  then have "ilog2 x < ilog2 y + 1"
    by (metis not_less one_le_numeral power_int_increasing)
  then show ?thesis by simp
qed

lemma ulp_pos: "0 < ulp x"
  by (simp add: ulp_def)

lemma ulp_minus: "ulp (- x) = ulp x"
  by (simp add: ulp_def)

lemma fl_0: "fl 0 = 0"
  by (simp add: fl_def)

lemma fl_minus: "fl (- x) = - fl x"
  by (simp add: fl_def ulp_minus rhe_minus)

lemma fl_nonneg: "0 \<le> x \<Longrightarrow> 0 \<le> fl x"
  using ulp_pos[of x] by (simp add: fl_def rhe_nonneg)

lemma fl_upper:
  assumes "0 < x"
  shows "fl x \<le> 2 powi (max (ilog2 x) (- 1022) + 1)"
proof -
  define e where "e = max (ilog2 x) (- 1022)"
  have u: "ulp x = 2 powi (e - 52)" using assms by (simp add: ulp_def e_def)
  have "x < 2 powi (ilog2 x + 1)" using ilog2_bounds[OF assms] by simp
  also have "\<dots> \<le> 2 powi (e + 1)"
    by (rule power_int_increasing) (simp_all add: e_def)
  also have "\<dots> = of_int (2 ^ 53) * ulp x"
    by (simp add: u power_int_diff power_int_add)
  finally have "x / ulp x \<le> of_int (2 ^ 53)"
    using ulp_pos[of x] by (simp add: field_simps)
  then have "rhe (x / ulp x) \<le> 2 ^ 53"
    using rhe_mono rhe_of_int by metis
  then have "(of_int (rhe (x / ulp x)) :: rat) \<le> of_int (2 ^ 53)"
    by (simp only: of_int_le_iff)
  then have "fl x \<le> of_int (2 ^ 53) * ulp x"
    using assms ulp_pos[of x] by (simp add: fl_def)
  also have "\<dots> = 2 powi (e + 1)"
    by (simp add: u power_int_diff power_int_add)
  finally show ?thesis by (simp add: e_def)
qed

lemma fl_lower:
  assumes "0 < x" "- 1022 \<le> ilog2 x"
  shows "2 powi (ilog2 x) \<le> fl x"
proof -
  have u: "ulp x = 2 powi (ilog2 x - 52)" using assms by (simp add: ulp_def max_def)
  have e: "(2::rat) powi (ilog2 x) = of_int (2 ^ 52) * ulp x"
    by (simp add: u power_int_diff)
  have "of_int (2 ^ 52) * ulp x \<le> x" using ilog2_bounds[OF assms(1)] e by simp
  then have "of_int (2 ^ 52) \<le> x / ulp x"
    using ulp_pos[of x] by (simp add: field_simps)
  then have "2 ^ 52 \<le> rhe (x / ulp x)"
    using rhe_mono rhe_of_int by metis
  then have "(of_int (2 ^ 52) :: rat) \<le> of_int (rhe (x / ulp x))"
    by (simp only: of_int_le_iff)
  then have "of_int (2 ^ 52) * ulp x \<le> fl x"
    using assms ulp_pos[of x] by (simp add: fl_def)
  then show ?thesis using e by simp
qed

lemma fl_mono_pos:
  assumes "0 < x" "x \<le> y"
  shows "fl x \<le> fl y"
proof (cases "max (ilog2 x) (- 1022) = max (ilog2 y) (- 1022)")
  case True
  then have u: "ulp x = ulp y" using assms by (simp add: ulp_def)
  have "x / ulp y \<le> y / ulp y"
    using assms ulp_pos[of y] by (simp add: divide_right_mono)
  then have "rhe (x / ulp y) \<le> rhe (y / ulp y)" by (rule rhe_mono)
  then have "(of_int (rhe (x / ulp y)) :: rat) * ulp y \<le> of_int (rhe (y / ulp y)) * ulp y"
    using ulp_pos[of y] by simp
  then show ?thesis using assms by (simp add: fl_def u)
next
  case False
  have m: "ilog2 x \<le> ilog2 y" using assms by (rule ilog2_mono)
  with False have lt: "max (ilog2 x) (- 1022) < ilog2 y" and ge: "- 1022 \<le> ilog2 y"
    by (auto simp: max_def split: if_splits)
  have "fl x \<le> 2 powi (max (ilog2 x) (- 1022) + 1)" using assms(1) by (rule fl_upper)
  also have "\<dots> \<le> 2 powi (ilog2 y)"
    by (rule power_int_increasing) (use lt in \<open>simp_all add: max_def split: if_splits\<close>)
  also have "\<dots> \<le> fl y" using assms ge by (intro fl_lower) auto
  finally show ?thesis .
qed

text \<open>Rounding is monotone: it never reverses the order of two exact results.\<close>

lemma fl_mono:
  assumes "x \<le> y"
  shows "fl x \<le> fl y"
proof -
  consider "0 < x" | "x \<le> 0" "0 \<le> y" | "y < 0" by linarith
  then show ?thesis
  proof cases
    case 1
    then show ?thesis using assms by (rule fl_mono_pos)
  next
    case 2
    have "fl x \<le> 0" using fl_nonneg[of "- x"] 2 by (simp add: fl_minus)
    moreover have "0 \<le> fl y" using 2 by (simp add: fl_nonneg)
    ultimately show ?thesis by simp
  next
    case 3
    have "fl (- y) \<le> fl (- x)" using 3 assms by (intro fl_mono_pos) auto
    then show ?thesis by (simp add: fl_minus)
  qed
qed

lemma fl_of_int_pos:
  assumes "0 < n" "n < 2 ^ 53"
  shows "fl (of_int n) = of_int n"
proof -
  define e where "e = ilog2 (of_int n)"
  have b: "(2::rat) powi e \<le> of_int n" "of_int n < (2::rat) powi (e + 1)"
    using ilog2_bounds[of "of_int n"] assms by (simp_all add: e_def)
  have "(2::rat) powi 0 \<le> of_int n" using assms by simp
  then have "(2::rat) powi 0 < 2 powi (e + 1)" using b by linarith
  then have e0: "0 \<le> e"
    by (smt (verit) one_le_numeral power_int_increasing not_less)
  have "(of_int n :: rat) < of_int (2 ^ 53)" using assms by (simp only: of_int_less_iff)
  then have "(2::rat) powi e < 2 powi 53" using b by simp
  then have e52: "e \<le> 52"
    by (smt (verit) one_le_numeral power_int_increasing not_less)
  have u: "ulp (of_int n) = 2 powi (e - 52)"
    using assms e0 by (simp add: ulp_def e_def)
  have iu: "1 / ulp (of_int n) = of_int (2 ^ nat (52 - e))"
    using e52 by (simp add: u power_int_def power_inverse field_simps)
  have "of_int n / ulp (of_int n) = of_int n * (1 / ulp (of_int n))"
    by simp
  also have "\<dots> = of_int (n * 2 ^ nat (52 - e))"
    by (simp only: iu of_int_mult)
  finally have "of_int n / ulp (of_int n) = of_int (n * 2 ^ nat (52 - e))" .
  then have "rhe (of_int n / ulp (of_int n)) = n * 2 ^ nat (52 - e)"
    by (simp only: rhe_of_int)
  then have "fl (of_int n) = of_int n * (of_int (2 ^ nat (52 - e)) * ulp (of_int n))"
    using assms by (simp add: fl_def)
  also have "of_int (2 ^ nat (52 - e)) * ulp (of_int n) = 1"
    using iu ulp_pos[of "of_int n"] by (simp add: field_simps)
  finally show ?thesis by simp
qed

text \<open>Ints of magnitude below \<open>2 ^ 53\<close> are binary64 values: converting them is exact.\<close>

lemma fl_of_int:
  assumes "\<bar>n\<bar> < 2 ^ 53"
  shows "fl (of_int n) = of_int n"
proof -
  consider "0 < n" | "n = 0" | "n < 0" by linarith
  then show ?thesis
  proof cases
    case 1
    then show ?thesis using assms by (intro fl_of_int_pos) auto
  next
    case 2
    then show ?thesis by (simp add: fl_0)
  next
    case 3
    then have "fl (of_int (- n)) = of_int (- n)" using assms by (intro fl_of_int_pos) auto
    then show ?thesis by (simp add: fl_minus)
  qed
qed

section \<open>lerp_color\<close>


lemma py_int_of_int: "py_int (of_int n) = n"
  by (simp add: py_int_def)

lemma py_int_mono:
  assumes "x \<le> y"
  shows "py_int x \<le> py_int y"
proof -
  consider "0 \<le> x" | "x < 0" "0 \<le> y" | "y < 0" by linarith
  then show ?thesis
  proof cases
    case 1
    then show ?thesis using assms by (simp add: py_int_def floor_mono)
  next
    case 2
    have "\<lceil>x\<rceil> \<le> 0" using 2 by (simp add: ceiling_le_iff)
    moreover have "0 \<le> \<lfloor>y\<rfloor>" using 2 by simp
    ultimately have "\<lceil>x\<rceil> \<le> \<lfloor>y\<rfloor>" by linarith
    then show ?thesis using 2 by (simp add: py_int_def)
  next
    case 3
    then show ?thesis using assms by (simp add: py_int_def ceiling_mono)
  qed
qed

lemma py_int_trunc:
  "\<bar>of_int (py_int v)\<bar> \<le> \<bar>v\<bar> \<and> \<bar>v\<bar> < \<bar>of_int (py_int v)\<bar> + 1 \<and> 0 \<le> of_int (py_int v) * v"
proof (cases "0 \<le> v")
  case True
  then have "0 \<le> \<lfloor>v\<rfloor>" by simp
  then have "(0::rat) \<le> of_int \<lfloor>v\<rfloor>" by simp
  then show ?thesis using True by (simp add: py_int_def) linarith
next
  case False
  then have "\<lceil>v\<rceil> \<le> 0" by (simp add: ceiling_le_iff)
  then have "(of_int \<lceil>v\<rceil> :: rat) \<le> 0" by simp
  then show ?thesis using False
    by (simp add: py_int_def mult_nonpos_nonpos) linarith
qed

lemma fl_of_int_between:
  assumes "\<bar>lo\<bar> < 2 ^ 53" "\<bar>hi\<bar> < 2 ^ 53" "of_int lo \<le> x" "x \<le> of_int hi"
  shows "of_int lo \<le> fl x \<and> fl x \<le> of_int hi"
  using fl_mono[OF assms(3)] fl_mono[OF assms(4)] fl_of_int[OF assms(1)] fl_of_int[OF assms(2)]
  by simp

lemma is_finite_of_int:
  assumes "\<bar>n\<bar> < 2 ^ 53"
  shows "is_finite (of_int n)"
proof -
  have "(of_int \<bar>n\<bar> :: rat) < of_int (2 ^ 53)" using assms by (simp only: of_int_less_iff)
  also have "\<dots> < 2 ^ 1024" by simp
  finally show ?thesis by (simp add: is_finite_def)
qed


lemma is_finite_between:
  assumes "\<bar>lo\<bar> < 2 ^ 53" "\<bar>hi\<bar> < 2 ^ 53" "of_int lo \<le> v" "v \<le> of_int hi"
  shows "is_finite v"
proof -
  have "- (2 ^ 53) < lo" "hi < 2 ^ 53" using assms(1,2) by linarith+
  then have "(of_int (- (2 ^ 53)) :: rat) < of_int lo" "(of_int hi :: rat) < of_int (2 ^ 53)"
    by (simp_all only: of_int_less_iff)
  then have "\<bar>v\<bar> < 2 ^ 53" using assms(3,4) by simp
  also have "\<dots> < (2::rat) ^ 1024" by simp
  finally show ?thesis by (simp add: is_finite_def)
qed

lemma float_of_int_exact: "\<bar>n\<bar> < 2 ^ 53 \<Longrightarrow> float_of_int n = Inr (of_int n)"
  by (simp add: float_of_int_def fl_of_int is_finite_of_int)

lemma lerp_sum_between:
  assumes "channel_ok a" "channel_ok b" "0 \<le> t" "t \<le> 1"
  shows "of_int (min a b) \<le> fmul (of_int (b - a)) t + of_int a
       \<and> fmul (of_int (b - a)) t + of_int a \<le> of_int (max a b)"
    and "is_finite (fmul (of_int (b - a)) t)"
proof -
  have ab: "\<bar>a\<bar> < 2 ^ 52" "\<bar>b\<bar> < 2 ^ 52" using assms by (simp_all add: channel_ok_def)
  define lo where "lo = min 0 (b - a)"
  define hi where "hi = max 0 (b - a)"
  have l: "\<bar>lo\<bar> < 2 ^ 53" "\<bar>hi\<bar> < 2 ^ 53" using ab by (auto simp: lo_def hi_def)
  have "of_int lo \<le> of_int (b - a) * t \<and> of_int (b - a) * t \<le> of_int hi"
  proof (cases "a \<le> b")
    case True
    then have d: "(0::rat) \<le> of_int (b - a)" by simp
    have "of_int (b - a) * t \<le> of_int (b - a) * 1"
      using d assms(4) by (rule mult_left_mono[rotated])
    moreover have "0 \<le> of_int (b - a) * t" using d assms(3) by simp
    ultimately show ?thesis using True by (simp add: lo_def hi_def)
  next
    case False
    then have d: "of_int (b - a) \<le> (0::rat)" by simp
    have "of_int (b - a) * 1 \<le> of_int (b - a) * t"
      using assms(4) d by (rule mult_left_mono_neg)
    moreover have "of_int (b - a) * t \<le> 0" using d assms(3) by (simp add: mult_nonpos_nonneg)
    ultimately show ?thesis using False by (simp add: lo_def hi_def)
  qed
  then have p: "of_int lo \<le> fmul (of_int (b - a)) t \<and> fmul (of_int (b - a)) t \<le> of_int hi"
    unfolding fmul_def using l by (intro fl_of_int_between) auto
  show "is_finite (fmul (of_int (b - a)) t)"
    using l p by (intro is_finite_between[of lo hi]) auto
  have "of_int (min a b) = of_int a + (of_int lo :: rat)" "of_int (max a b) = of_int a + (of_int hi :: rat)"
    by (auto simp: lo_def hi_def min_def max_def)
  then show "of_int (min a b) \<le> fmul (of_int (b - a)) t + of_int a
       \<and> fmul (of_int (b - a)) t + of_int a \<le> of_int (max a b)"
    using p by linarith
qed

lemma lerp_channel_value:
  assumes "channel_ok a" "channel_ok b" "0 \<le> t" "t \<le> 1"
  shows "lerp_channel a b t = Inr (py_int (fadd (of_int a) (fmul (of_int (b - a)) t)))"
    and "min a b \<le> py_int (fadd (of_int a) (fmul (of_int (b - a)) t))"
    and "py_int (fadd (of_int a) (fmul (of_int (b - a)) t)) \<le> max a b"
proof -
  have ab: "\<bar>a\<bar> < 2 ^ 52" "\<bar>b\<bar> < 2 ^ 52" using assms by (simp_all add: channel_ok_def)
  have m: "\<bar>min a b\<bar> < 2 ^ 53" "\<bar>max a b\<bar> < 2 ^ 53" using ab by (auto simp: min_def max_def)
  let ?p = "fmul (of_int (b - a)) t"
  let ?s = "fadd (of_int a) ?p"
  have sb: "of_int (min a b) \<le> ?s \<and> ?s \<le> of_int (max a b)"
    unfolding fadd_def using lerp_sum_between(1)[OF assms] m
    by (intro fl_of_int_between) (auto simp: add.commute)
  have fs: "is_finite ?s" using sb m by (intro is_finite_between[of "min a b" "max a b"]) auto
  have fp: "is_finite ?p" by (rule lerp_sum_between(2)[OF assms])
  have ba: "\<bar>b - a\<bar> < 2 ^ 53" "\<bar>a\<bar> < 2 ^ 53" using ab by simp_all
  have c: "float_of_int (b - a) = Inr (of_int (b - a))" "float_of_int a = Inr (of_int a)"
    using float_of_int_exact[OF ba(1)] float_of_int_exact[OF ba(2)] by blast+
  show "lerp_channel a b t = Inr (py_int ?s)"
    by (simp add: lerp_channel_def c Let_def fs fp del: of_int_diff)
  show "min a b \<le> py_int ?s"
    using py_int_mono[of "of_int (min a b)" ?s] sb by (simp add: py_int_of_int)
  show "py_int ?s \<le> max a b"
    using py_int_mono[of ?s "of_int (max a b)"] sb by (simp add: py_int_of_int)
qed

lemma lerp_value_mono:
  assumes "t1 \<le> t2" "a \<le> b"
  shows "py_int (fadd (of_int a) (fmul (of_int (b - a)) t1))
       \<le> py_int (fadd (of_int a) (fmul (of_int (b - a)) t2))"
proof -
  have "(0::rat) \<le> of_int (b - a)" using assms(2) by simp
  then have "of_int (b - a) * t1 \<le> of_int (b - a) * t2"
    using assms(1) by (simp add: mult_left_mono)
  then have "fmul (of_int (b - a)) t1 \<le> fmul (of_int (b - a)) t2"
    unfolding fmul_def by (rule fl_mono)
  then have "fadd (of_int a) (fmul (of_int (b - a)) t1) \<le> fadd (of_int a) (fmul (of_int (b - a)) t2)"
    unfolding fadd_def by (intro fl_mono) simp
  then show ?thesis by (rule py_int_mono)
qed

lemma lerp_value_antimono:
  assumes "t1 \<le> t2" "b \<le> a"
  shows "py_int (fadd (of_int a) (fmul (of_int (b - a)) t2))
       \<le> py_int (fadd (of_int a) (fmul (of_int (b - a)) t1))"
proof -
  have "of_int (b - a) \<le> (0::rat)" using assms(2) by simp
  then have "of_int (b - a) * t2 \<le> of_int (b - a) * t1"
    using assms(1) by (simp add: mult_left_mono_neg)
  then have "fmul (of_int (b - a)) t2 \<le> fmul (of_int (b - a)) t1"
    unfolding fmul_def by (rule fl_mono)
  then have "fadd (of_int a) (fmul (of_int (b - a)) t2) \<le> fadd (of_int a) (fmul (of_int (b - a)) t1)"
    unfolding fadd_def by (intro fl_mono) simp
  then show ?thesis by (rule py_int_mono)
qed

lemma lerp_value_0:
  assumes "channel_ok a"
  shows "py_int (fadd (of_int a) (fmul (of_int (b - a)) 0)) = a"
proof -
  have "\<bar>a\<bar> < 2 ^ 53" using assms by (simp add: channel_ok_def)
  then show ?thesis by (simp add: fmul_def fadd_def fl_0 fl_of_int py_int_of_int)
qed

lemma lerp_value_1:
  assumes "channel_ok a" "channel_ok b"
  shows "py_int (fadd (of_int a) (fmul (of_int (b - a)) 1)) = b"
proof -
  have ab: "\<bar>b - a\<bar> < 2 ^ 53" "\<bar>b\<bar> < 2 ^ 53" using assms by (simp_all add: channel_ok_def)
  have "fmul (of_int (b - a)) 1 = of_int (b - a)"
    using ab by (simp add: fmul_def fl_of_int del: of_int_diff)
  moreover have "fadd (of_int a) (of_int (b - a)) = of_int b"
    using fl_of_int[OF ab(2)] by (simp add: fadd_def)
  ultimately show ?thesis by (simp add: py_int_of_int del: of_int_diff)
qed


lemma truncation_py_int: "truncation v (py_int v)"
  unfolding truncation_def by (rule py_int_trunc)

lemma truncation_unique:
  assumes "truncation v c" "truncation v d"
  shows "c = d"
proof -
  have sc: "0 \<le> v \<Longrightarrow> 0 \<le> c" "v \<le> 0 \<Longrightarrow> c \<le> 0"
    using assms(1) unfolding truncation_def
    by (auto simp: zero_le_mult_iff abs_if split: if_splits)
  have sd: "0 \<le> v \<Longrightarrow> 0 \<le> d" "v \<le> 0 \<Longrightarrow> d \<le> 0"
    using assms(2) unfolding truncation_def
    by (auto simp: zero_le_mult_iff abs_if split: if_splits)
  have "\<bar>(of_int c :: rat)\<bar> < \<bar>of_int d\<bar> + 1" "\<bar>(of_int d :: rat)\<bar> < \<bar>of_int c\<bar> + 1"
    using assms unfolding truncation_def by linarith+
  then have "(of_int \<bar>c\<bar> :: rat) < of_int (\<bar>d\<bar> + 1)" "(of_int \<bar>d\<bar> :: rat) < of_int (\<bar>c\<bar> + 1)"
    by simp_all
  then have "\<bar>c\<bar> < \<bar>d\<bar> + 1" "\<bar>d\<bar> < \<bar>c\<bar> + 1"
    by (simp_all only: of_int_less_iff)
  then have "\<bar>c\<bar> = \<bar>d\<bar>" by linarith
  then show ?thesis using sc sd by (cases "0 \<le> v") auto
qed

lemma lerp_color_map:
  assumes "\<forall>c\<in>set a. channel_ok c" "\<forall>c\<in>set b. channel_ok c" "0 \<le> t" "t \<le> 1"
  shows "lerp_color a b t = Inr (map (\<lambda>(x, y). py_int (interp x y t)) (zip a b))"
  using assms
proof (induction a b t rule: lerp_color.induct)
  case (1 a as b bs t)
  then show ?case
    using lerp_channel_value(1)[of a b t] by (simp add: interp_def del: of_int_diff)
qed simp_all

lemma lerp_color_take: "lerp_color a b t = lerp_color (take (length b) a) (take (length a) b) t"
  by (induction a b t rule: lerp_color.induct) (simp_all split: sum.splits)


lemma interp_eval_half:
  "interp 0 255 (1/2) = 255/2" "interp 10 10 (1/2) = 10" "interp 255 0 (1/2) = 255/2"
  by code_simp+

lemma lerp_eval_half: "lerp_color [0, 10, 255] [255, 10, 0] (1/2) = Inr [127, 10, 127]"
proof -
  have "py_int (255/2) = 127" "py_int 10 = 10" by code_simp+
  then show ?thesis
    using lerp_color_map[of "[0, 10, 255]" "[255, 10, 0]" "1/2"]
    by (simp add: channel_ok_def interp_eval_half)
qed

text \<open>
  Claim C2. For colours \<open>a\<close> and \<open>b\<close> with the same number of channels and every \<open>t\<close> with
  \<open>0 \<le> t \<le> 1\<close>, \<open>lerp_color\<close> returns (raises nothing) a colour with as many channels, whose
  \<open>i\<close>-th channel is \<open>int(a_i + (b_i - a_i) * t)\<close>: the float value of the interpolation,
  truncated toward zero and not rounded to nearest.
\<close>

theorem lerp_color_truncated_interpolation:
  assumes "length a = length b"
    and "\<forall>c\<in>set a. channel_ok c" and "\<forall>c\<in>set b. channel_ok c"
    and "0 \<le> t" and "t \<le> 1"
  shows "\<exists>cs. lerp_color a b t = Inr cs \<and> length cs = length a \<and>
           (\<forall>i<length a. cs ! i = py_int (interp (a ! i) (b ! i) t) \<and>
                           truncation (interp (a ! i) (b ! i) t) (cs ! i))"
proof -
  let ?cs = "map (\<lambda>(x, y). py_int (interp x y t)) (zip a b)"
  have "lerp_color a b t = Inr ?cs" using assms(2-5) by (rule lerp_color_map)
  moreover have "length ?cs = length a" using assms(1) by simp
  moreover have "\<forall>i<length a. ?cs ! i = py_int (interp (a ! i) (b ! i) t) \<and>
                           truncation (interp (a ! i) (b ! i) t) (?cs ! i)"
    using assms(1) by (simp add: truncation_py_int)
  ultimately show ?thesis by blast
qed

theorem lerp_color_truncated_interpolation_witness:
  "lerp_color [0, 10, 255] [255, 10, 0] (1/2) = Inr [127, 10, 127] \<and>
   truncation (255/2) 127 \<and> \<not> truncation (255/2) 128"
proof -
  have h: "\<forall>c\<in>set [0, 10, 255]. channel_ok c" "\<forall>c\<in>set [255, 10, 0]. channel_ok c"
    by (simp_all add: channel_ok_def)
  obtain cs where cs: "lerp_color [0, 10, 255] [255, 10, 0] (1/2) = Inr cs"
    and tr: "\<forall>i<length [0, 10, 255::int]. cs ! i = py_int (interp ([0, 10, 255] ! i) ([255, 10, 0] ! i) (1/2)) \<and>
         truncation (interp ([0, 10, 255] ! i) ([255, 10, 0] ! i) (1/2)) (cs ! i)"
    using lerp_color_truncated_interpolation[of "[0, 10, 255]" "[255, 10, 0]" "1/2"] h
    by auto
  have e: "cs = [127, 10, 127]" using cs lerp_eval_half by simp
  have "truncation (interp 0 255 (1/2)) 127" using tr e by force
  then have "truncation (255/2) 127" by (simp only: interp_eval_half)
  moreover have "\<not> truncation (255/2) 128" by (simp add: truncation_def)
  ultimately show ?thesis using cs e by simp
qed


lemma lerp_color_at_0:
  assumes "\<forall>c\<in>set a. channel_ok c" "\<forall>c\<in>set b. channel_ok c"
  shows "lerp_color a b 0 = Inr (take (length b) a)"
proof -
  have "map (\<lambda>(x, y). py_int (interp x y 0)) (zip a b) = map fst (zip a b)"
    using assms(1) by (auto simp: interp_def lerp_value_0 dest: set_zip_leftD simp del: of_int_diff)
  also have "\<dots> = take (length b) a"
    by (simp add: map_fst_zip_take min_def)
  finally show ?thesis using lerp_color_map[OF assms, of 0] by simp
qed

lemma lerp_color_at_1:
  assumes "\<forall>c\<in>set a. channel_ok c" "\<forall>c\<in>set b. channel_ok c"
  shows "lerp_color a b 1 = Inr (take (length a) b)"
proof -
  have "py_int (interp x y 1) = y" if "(x, y) \<in> set (zip a b)" for x y
  proof -
    have "channel_ok x" "channel_ok y"
      using that assms by (auto dest: set_zip_leftD set_zip_rightD)
    then show ?thesis unfolding interp_def by (rule lerp_value_1)
  qed
  then have "map (\<lambda>(x, y). py_int (interp x y 1)) (zip a b) = map snd (zip a b)"
    by auto
  also have "\<dots> = take (length a) b"
    by (simp add: map_snd_zip_take min_def)
  finally show ?thesis using lerp_color_map[OF assms, of 1] by simp
qed

text \<open>
  The endpoint \<open>b\<close> is not reproduced when \<open>b\<close> has more channels than \<open>a\<close>: \<open>zip\<close> drops
  the fourth channel.
\<close>

theorem lerp_color_endpoint_counterexample:
  "lerp_color [1, 2, 3] [4, 5, 6, 7] 1 = Inr [4, 5, 6] \<and>
   lerp_color [1, 2, 3] [4, 5, 6, 7] 1 \<noteq> Inr [4, 5, 6, 7]"
  using lerp_color_at_1[of "[1, 2, 3]" "[4, 5, 6, 7]"] by (simp add: channel_ok_def)

text \<open>
  Claim C3, amended. For colours \<open>a\<close> and \<open>b\<close> and \<open>0 \<le> t1 \<le> t2 \<le> 1\<close>, every channel of
  \<open>lerp_color\<close> is monotonic in \<open>t\<close>: it does not decrease from \<open>t1\<close> to \<open>t2\<close> where
  \<open>a_i \<le> b_i\<close> and does not increase where \<open>b_i \<le> a_i\<close>. At \<open>t = 0\<close> the result is \<open>a\<close> cut to
  the length of \<open>b\<close>, at \<open>t = 1\<close> it is \<open>b\<close> cut to the length of \<open>a\<close>; the endpoints are
  reproduced exactly when \<open>a\<close> and \<open>b\<close> have the same number of channels.
\<close>

theorem lerp_color_monotone_endpoints:
  assumes "\<forall>c\<in>set a. channel_ok c" and "\<forall>c\<in>set b. channel_ok c"
    and "0 \<le> t1" and "t1 \<le> t2" and "t2 \<le> 1"
  shows "(\<exists>cs1 cs2. lerp_color a b t1 = Inr cs1 \<and> lerp_color a b t2 = Inr cs2 \<and>
            length cs1 = min (length a) (length b) \<and> length cs2 = min (length a) (length b) \<and>
            (\<forall>i<min (length a) (length b).
               (a ! i \<le> b ! i \<longrightarrow> cs1 ! i \<le> cs2 ! i) \<and>
               (b ! i \<le> a ! i \<longrightarrow> cs2 ! i \<le> cs1 ! i))) \<and>
         lerp_color a b 0 = Inr (take (length b) a) \<and>
         lerp_color a b 1 = Inr (take (length a) b) \<and>
         (length a = length b \<longrightarrow> lerp_color a b 0 = Inr a \<and> lerp_color a b 1 = Inr b)"
proof -
  let ?f = "\<lambda>t. map (\<lambda>(x, y). py_int (interp x y t)) (zip a b)"
  have t: "0 \<le> t2" "t1 \<le> 1" using assms(3-5) by linarith+
  have 1: "lerp_color a b t1 = Inr (?f t1)"
    using assms(1,2,3) t(2) by (rule lerp_color_map)
  have 2: "lerp_color a b t2 = Inr (?f t2)"
    using assms(1,2) t(1) assms(5) by (rule lerp_color_map)
  have 3: "\<forall>i<min (length a) (length b).
               (a ! i \<le> b ! i \<longrightarrow> ?f t1 ! i \<le> ?f t2 ! i) \<and>
               (b ! i \<le> a ! i \<longrightarrow> ?f t2 ! i \<le> ?f t1 ! i)"
    using assms(4) by (simp add: interp_def lerp_value_mono lerp_value_antimono del: of_int_diff)
  have 4: "length (?f t1) = min (length a) (length b)" "length (?f t2) = min (length a) (length b)"
    by simp_all
  have 5: "lerp_color a b 0 = Inr (take (length b) a)" "lerp_color a b 1 = Inr (take (length a) b)"
    using assms(1,2) by (rule lerp_color_at_0 lerp_color_at_1)+
  show ?thesis
    using 1 2 3 4 5 by (intro conjI exI[of _ "?f t1"] exI[of _ "?f t2"]) simp_all
qed

lemma interp_eval_quarters:
  "interp 9 36 (1/4) = 63/4" "interp 9 36 (3/4) = 117/4"
  "interp 23 12 (1/4) = 81/4" "interp 23 12 (3/4) = 59/4"
  "interp 48 64 (1/4) = 52" "interp 48 64 (3/4) = 60"
  by code_simp+

lemma lerp_eval_quarters:
  "lerp_color [9, 23, 48] [36, 12, 64] (1/4) = Inr [15, 20, 52]"
  "lerp_color [9, 23, 48] [36, 12, 64] (3/4) = Inr [29, 14, 60]"
proof -
  have "py_int (63/4) = 15" "py_int (117/4) = 29" "py_int (81/4) = 20" "py_int (59/4) = 14"
    "py_int 52 = 52" "py_int 60 = 60" by code_simp+
  then show "lerp_color [9, 23, 48] [36, 12, 64] (1/4) = Inr [15, 20, 52]"
    "lerp_color [9, 23, 48] [36, 12, 64] (3/4) = Inr [29, 14, 60]"
    using lerp_color_map[of "[9, 23, 48]" "[36, 12, 64]" "1/4"]
      lerp_color_map[of "[9, 23, 48]" "[36, 12, 64]" "3/4"]
    by (simp_all add: channel_ok_def interp_eval_quarters)
qed

theorem lerp_color_monotone_endpoints_witness:
  "lerp_color [9, 23, 48] [36, 12, 64] (1/4) = Inr [15, 20, 52] \<and>
   lerp_color [9, 23, 48] [36, 12, 64] (3/4) = Inr [29, 14, 60] \<and>
   lerp_color [9, 23, 48] [36, 12, 64] 0 = Inr [9, 23, 48] \<and>
   lerp_color [9, 23, 48] [36, 12, 64] 1 = Inr [36, 12, 64]"
  using lerp_color_monotone_endpoints[of "[9, 23, 48]" "[36, 12, 64]" "1/4" "3/4"]
    lerp_eval_quarters
  by (simp add: channel_ok_def)

text \<open>
  Claim C10. Given colours with different numbers of channels, \<open>lerp_color\<close> raises
  nothing: it returns a tuple as long as the shorter colour, the interpolation of the
  leading channels, and the extra trailing channels of the longer colour are dropped.
\<close>

theorem lerp_color_zip_truncation:
  assumes "\<forall>c\<in>set a. channel_ok c" and "\<forall>c\<in>set b. channel_ok c"
    and "0 \<le> t" and "t \<le> 1"
  shows "\<exists>cs. lerp_color a b t = Inr cs \<and> length cs = min (length a) (length b) \<and>
           lerp_color (take (length b) a) (take (length a) b) t = Inr cs \<and>
           (\<forall>i<length cs. cs ! i = py_int (interp (a ! i) (b ! i) t))"
proof -
  let ?cs = "map (\<lambda>(x, y). py_int (interp x y t)) (zip a b)"
  have 1: "lerp_color a b t = Inr ?cs" using assms by (rule lerp_color_map)
  then have 2: "lerp_color (take (length b) a) (take (length a) b) t = Inr ?cs"
    using lerp_color_take[of a b t] by simp
  show ?thesis
    using 1 2 by (intro exI[of _ ?cs]) simp
qed

theorem lerp_color_zip_truncation_witness:
  "lerp_color [0, 10, 255] [255, 10, 0, 220] (1/2) = Inr [127, 10, 127] \<and>
   lerp_color [0, 10, 255, 220] [255, 10, 0] (1/2) = Inr [127, 10, 127]"
proof -
  have h: "\<forall>c\<in>set [0, 10, 255]. channel_ok c" "\<forall>c\<in>set [255, 10, 0, 220]. channel_ok c"
    "\<forall>c\<in>set [0, 10, 255, 220]. channel_ok c" "\<forall>c\<in>set [255, 10, 0]. channel_ok c"
    by (simp_all add: channel_ok_def)
  have "lerp_color [0, 10, 255] [255, 10, 0, 220] (1/2) = Inr [127, 10, 127]"
    using lerp_color_zip_truncation[OF h(1,2), of "1/2"] lerp_eval_half by simp
  moreover have "lerp_color [0, 10, 255, 220] [255, 10, 0] (1/2) = Inr [127, 10, 127]"
    using lerp_color_zip_truncation[OF h(3,4), of "1/2"] lerp_eval_half by simp
  ultimately show ?thesis by simp
qed

section \<open>paint_background\<close>

lemma foldM_append:
  "foldM f (xs @ ys) s = (case foldM f xs s of Inl e \<Rightarrow> Inl e | Inr s' \<Rightarrow> foldM f ys s')"
  by (induction xs arbitrary: s) (simp_all split: sum.splits)

lemma foldM_snoc:
  "foldM f (xs @ [x]) s = (case foldM f xs s of Inl e \<Rightarrow> Inl e | Inr s' \<Rightarrow> f x s')"
  by (simp add: foldM_append split: sum.splits)

lemma fill_row_rgb:
  assumes "y < height img" "n \<le> width img" "length c = 3"
  shows "foldM (\<lambda>x im. putpixel_rgb im x y c) [0..<n] img =
           Inr (img\<lparr>pix := (\<lambda>x' y'. if y' = y \<and> x' < n
                                  then (clip8 (c ! 0), clip8 (c ! 1), clip8 (c ! 2))
                                  else pix img x' y')\<rparr>)"
  using assms(2)
proof (induction n)
  case 0
  show ?case by simp
next
  case (Suc n)
  then have n: "n < width img" "n \<le> width img" by simp_all
  have "foldM (\<lambda>x im. putpixel_rgb im x y c) [0..<Suc n] img =
          putpixel_rgb (img\<lparr>pix := (\<lambda>x' y'. if y' = y \<and> x' < n
                                  then (clip8 (c ! 0), clip8 (c ! 1), clip8 (c ! 2))
                                  else pix img x' y')\<rparr>) n y c"
    by (simp add: foldM_snoc Suc.IH[OF n(2)])
  also have "\<dots> = Inr (img\<lparr>pix := (\<lambda>x' y'. if y' = y \<and> x' < Suc n
                                  then (clip8 (c ! 0), clip8 (c ! 1), clip8 (c ! 2))
                                  else pix img x' y')\<rparr>)"
    using assms(1,3) n(1) by (auto simp: putpixel_rgb_def fun_eq_iff less_Suc_eq)
  finally show ?case .
qed

lemma fill_column_rgba:
  assumes "x < width img" "n \<le> height img" "length c = 4"
  shows "foldM (\<lambda>y im. putpixel_rgba im x y c) [0..<n] img =
           Inr (img\<lparr>pix := (\<lambda>x' y'. if x' = x \<and> y' < n
                                  then (clip8 (c ! 0), clip8 (c ! 1), clip8 (c ! 2), clip8 (c ! 3))
                                  else pix img x' y')\<rparr>)"
  using assms(2)
proof (induction n)
  case 0
  show ?case by simp
next
  case (Suc n)
  then have n: "n < height img" "n \<le> height img" by simp_all
  have "foldM (\<lambda>y im. putpixel_rgba im x y c) [0..<Suc n] img =
          putpixel_rgba (img\<lparr>pix := (\<lambda>x' y'. if x' = x \<and> y' < n
                                  then (clip8 (c ! 0), clip8 (c ! 1), clip8 (c ! 2), clip8 (c ! 3))
                                  else pix img x' y')\<rparr>) x n c"
    by (simp add: foldM_snoc Suc.IH[OF n(2)])
  also have "\<dots> = Inr (img\<lparr>pix := (\<lambda>x' y'. if x' = x \<and> y' < Suc n
                                  then (clip8 (c ! 0), clip8 (c ! 1), clip8 (c ! 2), clip8 (c ! 3))
                                  else pix img x' y')\<rparr>)"
    using assms(1,3) n(1) by (auto simp: putpixel_rgba_def fun_eq_iff less_Suc_eq)
  finally show ?case .
qed


lemma fl_1: "fl 1 = 1"
  using fl_of_int[of 1] by simp

lemma unit_fdiv:
  assumes "n \<le> m" "0 < m"
  shows "0 \<le> fdiv (of_nat n) (of_nat m) \<and> fdiv (of_nat n) (of_nat m) \<le> 1"
proof -
  have "(0::rat) \<le> of_nat n / of_nat m" by simp
  moreover have "(of_nat n :: rat) / of_nat m \<le> 1" using assms by simp
  ultimately show ?thesis
    unfolding fdiv_def using fl_mono[of 0 "of_nat n / of_nat m"] fl_mono[of "of_nat n / of_nat m" 1]
    by (simp add: fl_0 fl_1)
qed

lemma row_t_unit: "y < HEIGHT \<Longrightarrow> 0 \<le> row_t y \<and> row_t y \<le> 1"
  unfolding row_t_def by (rule unit_fdiv) (simp_all add: HEIGHT_def)

lemma column_t_unit: "x < WIDTH \<Longrightarrow> 0 \<le> column_t x \<and> column_t x \<le> 1"
  unfolding column_t_def by (rule unit_fdiv) (simp_all add: WIDTH_def)

lemma byte_ok_channel: "byte_ok c \<Longrightarrow> channel_ok c"
  by (simp add: byte_ok_def channel_ok_def)


text \<open>Interpolating two 8-bit colours of three channels gives an 8-bit colour of three channels.\<close>

lemma lerp_color_rgb:
  assumes "byte_ok a0" "byte_ok a1" "byte_ok a2" "byte_ok b0" "byte_ok b1" "byte_ok b2"
    and "0 \<le> t" "t \<le> 1"
  shows "\<exists>r g b. lerp_color [a0, a1, a2] [b0, b1, b2] t = Inr [r, g, b]
           \<and> byte_ok r \<and> byte_ok g \<and> byte_ok b"
proof -
  have c: "channel_ok a0" "channel_ok a1" "channel_ok a2" "channel_ok b0" "channel_ok b1" "channel_ok b2"
    using assms(1-6) by (simp_all add: byte_ok_channel)
  have r: "byte_ok (py_int (interp x y t))" if "byte_ok x" "byte_ok y" for x y
    using lerp_channel_value(2,3)[of x y t] that assms(7,8)
    by (auto simp: byte_ok_channel interp_def byte_ok_def simp del: of_int_diff)
  have "lerp_color [a0, a1, a2] [b0, b1, b2] t =
          Inr [py_int (interp a0 b0 t), py_int (interp a1 b1 t), py_int (interp a2 b2 t)]"
    using lerp_color_map[of "[a0, a1, a2]" "[b0, b1, b2]" t] c assms(7,8) by simp
  then show ?thesis using r assms(1-6) by blast
qed


lemma palette_bytes:
  "byte_ok 9" "byte_ok 23" "byte_ok 48" "byte_ok 36" "byte_ok 12" "byte_ok 64"
  "byte_ok 15" "byte_ok 44" "byte_ok 84" "byte_ok 55" "byte_ok 16" "byte_ok 95"
  by (simp_all add: byte_ok_def)

lemma row_lerp:
  assumes "y < HEIGHT"
  shows "\<exists>r g b. lerp_color (tuple3 navy_top) (tuple3 navy_bottom) (row_t y) = Inr [r, g, b]
           \<and> byte_ok r \<and> byte_ok g \<and> byte_ok b"
  unfolding tuple3_def navy_top_def navy_bottom_def prod.case
  using row_t_unit[OF assms] by (intro lerp_color_rgb palette_bytes) simp_all

lemma column_lerp:
  assumes "x < WIDTH"
  shows "\<exists>r g b. lerp_color (tuple3 overlay_start) (tuple3 overlay_end) (column_t x) = Inr [r, g, b]
           \<and> byte_ok r \<and> byte_ok g \<and> byte_ok b"
  unfolding tuple3_def overlay_start_def overlay_end_def prod.case
  using column_t_unit[OF assms] by (intro lerp_color_rgb palette_bytes) simp_all

lemma base_row_result:
  assumes "y < HEIGHT" "width img = WIDTH" "height img = HEIGHT"
  shows "base_row y img =
           Inr (img\<lparr>pix := (\<lambda>x' y'. if y' = y \<and> x' < WIDTH then row_pixel y else pix img x' y')\<rparr>)"
proof -
  obtain r g b where l: "lerp_color (tuple3 navy_top) (tuple3 navy_bottom) (row_t y) = Inr [r, g, b]"
    using row_lerp[OF assms(1)] by blast
  have "foldM (\<lambda>x im. putpixel_rgb im x y [r, g, b]) [0..<WIDTH] img =
          Inr (img\<lparr>pix := (\<lambda>x' y'. if y' = y \<and> x' < WIDTH
                 then (clip8 r, clip8 g, clip8 b)
                 else pix img x' y')\<rparr>)"
    using fill_row_rgb[of y img WIDTH "[r, g, b]"] assms by (simp cong: if_cong)
  moreover have "row_pixel y = (clip8 r, clip8 g, clip8 b)"
    using l by (simp add: row_pixel_def)
  ultimately show ?thesis
    using l by (simp add: base_row_def cong: if_cong)
qed

lemma overlay_column_result:
  assumes "x < WIDTH" "width img = WIDTH" "height img = HEIGHT"
  shows "overlay_column x img =
           Inr (img\<lparr>pix := (\<lambda>x' y'. if x' = x \<and> y' < HEIGHT then column_pixel x else pix img x' y')\<rparr>)"
proof -
  obtain r g b where l: "lerp_color (tuple3 overlay_start) (tuple3 overlay_end) (column_t x) = Inr [r, g, b]"
    using column_lerp[OF assms(1)] by blast
  let ?c = "[r, g, b] @ [overlay_alpha (column_t x)]"
  have "foldM (\<lambda>y im. putpixel_rgba im x y ?c) [0..<HEIGHT] img =
          Inr (img\<lparr>pix := (\<lambda>x' y'. if x' = x \<and> y' < HEIGHT
                 then (clip8 r, clip8 g, clip8 b, clip8 (overlay_alpha (column_t x)))
                 else pix img x' y')\<rparr>)"
    using fill_column_rgba[of x img HEIGHT ?c] assms by (simp cong: if_cong)
  moreover have "column_pixel x = (clip8 r, clip8 g, clip8 b, clip8 (overlay_alpha (column_t x)))"
    using l by (simp add: column_pixel_def)
  ultimately show ?thesis
    using l by (simp add: overlay_column_def Let_def cong: if_cong)
qed

lemma base_loop:
  assumes "m \<le> HEIGHT" "width img = WIDTH" "height img = HEIGHT"
  shows "foldM base_row [0..<m] img =
           Inr (img\<lparr>pix := (\<lambda>x y. if y < m \<and> x < WIDTH then row_pixel y else pix img x y)\<rparr>)"
  using assms(1)
proof (induction m)
  case 0
  show ?case by simp
next
  case (Suc m)
  then have m: "m < HEIGHT" "m \<le> HEIGHT" by simp_all
  let ?img = "img\<lparr>pix := (\<lambda>x y. if y < m \<and> x < WIDTH then row_pixel y else pix img x y)\<rparr>"
  have "foldM base_row [0..<Suc m] img = base_row m ?img"
    by (simp add: foldM_snoc Suc.IH[OF m(2)])
  also have "\<dots> = Inr (?img\<lparr>pix := (\<lambda>x' y'. if y' = m \<and> x' < WIDTH then row_pixel m else pix ?img x' y')\<rparr>)"
    using m(1) assms(2,3) by (intro base_row_result) simp_all
  also have "\<dots> = Inr (img\<lparr>pix := (\<lambda>x y. if y < Suc m \<and> x < WIDTH then row_pixel y else pix img x y)\<rparr>)"
    by (auto simp: fun_eq_iff less_Suc_eq)
  finally show ?case .
qed

lemma overlay_loop:
  assumes "m \<le> WIDTH" "width img = WIDTH" "height img = HEIGHT"
  shows "foldM overlay_column [0..<m] img =
           Inr (img\<lparr>pix := (\<lambda>x y. if x < m \<and> y < HEIGHT then column_pixel x else pix img x y)\<rparr>)"
  using assms(1)
proof (induction m)
  case 0
  show ?case by simp
next
  case (Suc m)
  then have m: "m < WIDTH" "m \<le> WIDTH" by simp_all
  let ?img = "img\<lparr>pix := (\<lambda>x y. if x < m \<and> y < HEIGHT then column_pixel x else pix img x y)\<rparr>"
  have "foldM overlay_column [0..<Suc m] img = overlay_column m ?img"
    by (simp add: foldM_snoc Suc.IH[OF m(2)])
  also have "\<dots> = Inr (?img\<lparr>pix := (\<lambda>x' y'. if x' = m \<and> y' < HEIGHT then column_pixel m else pix ?img x' y')\<rparr>)"
    using m(1) assms(2,3) by (intro overlay_column_result) simp_all
  also have "\<dots> = Inr (img\<lparr>pix := (\<lambda>x y. if x < Suc m \<and> y < HEIGHT then column_pixel x else pix img x y)\<rparr>)"
    by (auto simp: fun_eq_iff less_Suc_eq)
  finally show ?case .
qed

lemma background_base_result:
  "background_base =
     Inr \<lparr>width = WIDTH, height = HEIGHT,
          pix = (\<lambda>x y. if y < HEIGHT \<and> x < WIDTH then row_pixel y else (0, 0, 0))\<rparr>"
  unfolding background_base_def
  by (subst base_loop) (simp_all add: new_image_def cong: if_cong)

lemma background_overlay_result:
  "background_overlay =
     Inr \<lparr>width = WIDTH, height = HEIGHT,
          pix = (\<lambda>x y. if x < WIDTH \<and> y < HEIGHT then column_pixel x else (0, 0, 0, 0))\<rparr>"
  unfolding background_overlay_def
  by (subst overlay_loop) (simp_all add: new_image_def ink_rgba_def clip8_def cong: if_cong)

lemma paint_background_result:
  "paint_background L =
     Inr \<lparr>width = WIDTH, height = HEIGHT,
          pix = (\<lambda>x y. over_px L
                   (case (if y < HEIGHT \<and> x < WIDTH then row_pixel y else (0, 0, 0)) of
                      (r, g, b) \<Rightarrow> (r, g, b, 255))
                   (if x < WIDTH \<and> y < HEIGHT then column_pixel x else (0, 0, 0, 0)))\<rparr>"
  by (simp add: paint_background_def background_base_result background_overlay_result
      alpha_composite_def convert_rgba_def)














lemma overlay_alpha_values:
  "overlay_alpha 0 = 0" "overlay_alpha (1/2) = 90" "overlay_alpha 1 = 0"
  by code_simp+















section \<open>The size of the canvas\<close>

lemma paint_size: "width (paint R c img) = width img" "height (paint R c img) = height img"
  by (simp_all add: paint_def)

lemma draw_size: "width (draw L ink c img) = width img \<and> height (draw L ink c img) = height img"
  by (induction L ink c img rule: draw.induct) (simp_all add: paint_size)

lemma draw_all_size:
  "width (draw_all L ink calls img) = width img \<and> height (draw_all L ink calls img) = height img"
  unfolding draw_all_def
  by (induction calls arbitrary: img) (simp_all add: draw_size)

lemma blur_l_size:
  "width (gaussian_blur_l L r img) = width img" "height (gaussian_blur_l L r img) = height img"
  by (simp_all add: gaussian_blur_l_def)

lemma blur_rgba_size:
  "width (gaussian_blur_rgba L r img) = width img" "height (gaussian_blur_rgba L r img) = height img"
  by (simp_all add: gaussian_blur_rgba_def)

lemma new_image_size: "width (new_image w h c) = w" "height (new_image w h c) = h"
  by (simp_all add: new_image_def)

lemma alpha_composite_size:
  assumes "width im1 = width im2" "height im1 = height im2"
  shows "\<exists>c. alpha_composite L im1 im2 = Inr c \<and> width c = width im1 \<and> height c = height im1"
  using assms by (simp add: alpha_composite_def)

lemma putalpha_size:
  assumes "width img = width alpha" "height img = height alpha"
  shows "\<exists>c. putalpha img alpha = Inr c \<and> width c = width img \<and> height c = height img"
  using assms by (simp add: putalpha_def)

text \<open>\<open>Image.alpha_composite\<close> and \<open>putalpha\<close> raise on images of different sizes.\<close>

lemma alpha_composite_mismatch:
  "width im1 \<noteq> width im2 \<or> height im1 \<noteq> height im2 \<Longrightarrow> alpha_composite L im1 im2 = Inl ValueError"
  by (auto simp: alpha_composite_def)

lemma composite_on_canvas:
  assumes "width canvas = WIDTH" "height canvas = HEIGHT" "width layer = WIDTH" "height layer = HEIGHT"
  shows "\<exists>c. alpha_composite L canvas layer = Inr c \<and> width c = WIDTH \<and> height c = HEIGHT"
  using assms by (simp add: alpha_composite_def)

lemma alpha_layer:
  assumes "width alpha = WIDTH" "height alpha = HEIGHT"
  shows "\<exists>layer. putalpha (new_image WIDTH HEIGHT c) alpha = Inr layer
           \<and> width layer = WIDTH \<and> height layer = HEIGHT"
  using assms by (simp add: putalpha_def new_image_def)

lemma add_highlights_size:
  assumes "width canvas = WIDTH" "height canvas = HEIGHT"
  shows "\<exists>c. add_highlights L canvas = Inr c \<and> width c = WIDTH \<and> height c = HEIGHT"
proof -
  let ?soft = "gaussian_blur_l L 180 (highlight_mask L)"
  have "width ?soft = WIDTH" "height ?soft = HEIGHT"
    by (simp_all add: blur_l_size highlight_mask_def draw_all_size new_image_size)
  then obtain layer where l: "putalpha (new_image WIDTH HEIGHT (ink_rgba (110, 170, 255, 0))) ?soft = Inr layer"
    "width layer = WIDTH" "height layer = HEIGHT"
    using alpha_layer by blast
  show ?thesis
    using composite_on_canvas[OF assms l(2,3)] l(1) by (simp add: add_highlights_def)
qed

lemma add_grid_size:
  assumes "width canvas = WIDTH" "height canvas = HEIGHT"
  shows "\<exists>c. add_grid L canvas = Inr c \<and> width c = WIDTH \<and> height c = HEIGHT"
  unfolding add_grid_def Let_def
  by (rule composite_on_canvas[OF assms])
     (simp_all add: blur_rgba_size draw_all_size new_image_size)

lemma add_panels_size:
  assumes "width canvas = WIDTH" "height canvas = HEIGHT"
  shows "\<exists>c. add_panels L canvas = Inr c \<and> width c = WIDTH \<and> height c = HEIGHT"
  unfolding add_panels_def Let_def
  by (rule composite_on_canvas[OF assms]) (simp_all add: draw_all_size new_image_size)

lemma add_particles_eq:
  "add_particles L G canvas s =
     (alpha_composite L canvas
        (gaussian_blur_rgba L (flit (6/10))
           (draw_all L ink_rgba (fst (particle_calls G s))
              (new_image WIDTH HEIGHT (ink_rgba (0, 0, 0, 0))))),
      snd (particle_calls G s))"
  by (simp add: add_particles_def Let_def split: prod.splits)

lemma add_particles_size:
  assumes "width canvas = WIDTH" "height canvas = HEIGHT"
  shows "\<exists>c. add_particles L G canvas s = (Inr c, snd (particle_calls G s))
           \<and> width c = WIDTH \<and> height c = HEIGHT"
proof -
  have "\<exists>c. alpha_composite L canvas
        (gaussian_blur_rgba L (flit (6/10))
           (draw_all L ink_rgba (fst (particle_calls G s))
              (new_image WIDTH HEIGHT (ink_rgba (0, 0, 0, 0))))) = Inr c
         \<and> width c = WIDTH \<and> height c = HEIGHT"
    by (rule composite_on_canvas[OF assms]) (simp_all add: blur_rgba_size draw_all_size new_image_size)
  then show ?thesis by (auto simp: add_particles_eq)
qed

lemma add_vignette_size:
  assumes "width canvas = WIDTH" "height canvas = HEIGHT"
  shows "\<exists>c. add_vignette L canvas = Inr c \<and> width c = WIDTH \<and> height c = HEIGHT"
proof -
  let ?v = "gaussian_blur_l L 180 (draw L clip8 (Rectangle (0, 0, of_nat WIDTH, of_nat HEIGHT) 255)
                       (new_image WIDTH HEIGHT (clip8 0)))"
  let ?f = "gaussian_blur_l L 120 (draw L clip8 (Ellipse focus_bbox 220) (new_image WIDTH HEIGHT (clip8 0)))"
  have "width ?v = WIDTH" "height ?v = HEIGHT"
    by (simp_all add: blur_l_size paint_size new_image_size)
  then obtain layer where l: "putalpha (new_image WIDTH HEIGHT (ink_rgba (5, 10, 30, 0))) ?v = Inr layer"
    "width layer = WIDTH" "height layer = HEIGHT"
    using alpha_layer by blast
  have "width ?f = WIDTH" "height ?f = HEIGHT"
    by (simp_all add: blur_l_size paint_size new_image_size)
  then obtain focus_layer where
    f: "putalpha (new_image WIDTH HEIGHT (ink_rgba (255, 255, 255, 0))) ?f = Inr focus_layer"
    "width focus_layer = WIDTH" "height focus_layer = HEIGHT"
    using alpha_layer by blast
  obtain result where r: "alpha_composite L canvas layer = Inr result"
    "width result = WIDTH" "height result = HEIGHT"
    using composite_on_canvas[OF assms l(2,3)] by blast
  show ?thesis
    using composite_on_canvas[OF r(2,3) f(2,3)] l(1) f(1) r(1) by (simp add: add_vignette_def)
qed

lemma paint_background_size:
  "\<exists>c. paint_background L = Inr c \<and> width c = WIDTH \<and> height c = HEIGHT"
  by (simp add: paint_background_result)

lemma convert_rgb_size: "width (convert_rgb c) = width c" "height (convert_rgb c) = height c"
  by (simp_all add: convert_rgb_def)

text \<open>The pipeline raises nothing: every stage is handed a canvas of the size of its layers.\<close>

lemma render_image_stages:
  "\<exists>c0 c1 c2 c3 c4 c5.
     paint_background L = Inr c0 \<and> add_highlights L c0 = Inr c1 \<and> add_grid L c1 = Inr c2 \<and>
     add_panels L c2 = Inr c3 \<and> add_particles L G c3 s = (Inr c4, snd (particle_calls G s)) \<and>
     add_vignette L c4 = Inr c5 \<and>
     render_image L G s = (Inr (convert_rgb c5), snd (particle_calls G s)) \<and>
     (\<forall>c \<in> {c0, c1, c2, c3, c4, c5}. width c = WIDTH \<and> height c = HEIGHT)"
proof -
  obtain c0 where c0: "paint_background L = Inr c0" "width c0 = WIDTH" "height c0 = HEIGHT"
    using paint_background_size by blast
  obtain c1 where c1: "add_highlights L c0 = Inr c1" "width c1 = WIDTH" "height c1 = HEIGHT"
    using add_highlights_size[OF c0(2,3)] by blast
  obtain c2 where c2: "add_grid L c1 = Inr c2" "width c2 = WIDTH" "height c2 = HEIGHT"
    using add_grid_size[OF c1(2,3)] by blast
  obtain c3 where c3: "add_panels L c2 = Inr c3" "width c3 = WIDTH" "height c3 = HEIGHT"
    using add_panels_size[OF c2(2,3)] by blast
  obtain c4 where c4: "add_particles L G c3 s = (Inr c4, snd (particle_calls G s))"
    "width c4 = WIDTH" "height c4 = HEIGHT"
    using add_particles_size[OF c3(2,3), of L G s] by blast
  obtain c5 where c5: "add_vignette L c4 = Inr c5" "width c5 = WIDTH" "height c5 = HEIGHT"
    using add_vignette_size[OF c4(2,3)] by blast
  have "render_image L G s = (Inr (convert_rgb c5), snd (particle_calls G s))"
    by (simp add: render_image_def c0 c1 c2 c3 c4 c5)
  then show ?thesis
    using c0 c1 c2 c3 c4 c5 by blast
qed

text \<open>
  Claim C4. Handed a canvas of 1440 by 960 pixels, each of \<open>add_highlights\<close>, \<open>add_grid\<close>,
  \<open>add_panels\<close>, \<open>add_particles\<close> and \<open>add_vignette\<close> raises nothing and returns a canvas of
  1440 by 960 pixels, and so does \<open>paint_background\<close>, which makes the first canvas. A run
  of the pipeline raises nothing and ends in an image \<open>final\<close> of mode RGB (three bytes per
  pixel, as its type says, no alpha band) of 1440 by 960 pixels, which reads as opaque at
  every position; for every destination this image is the one handed to \<open>save\<close>.
\<close>

theorem stages_keep_canvas_size:
  assumes "width canvas = 1440" and "height canvas = 960"
  shows "(\<exists>c. paint_background L = Inr c \<and> width c = 1440 \<and> height c = 960) \<and>
         (\<exists>c. add_highlights L canvas = Inr c \<and> width c = 1440 \<and> height c = 960) \<and>
         (\<exists>c. add_grid L canvas = Inr c \<and> width c = 1440 \<and> height c = 960) \<and>
         (\<exists>c. add_panels L canvas = Inr c \<and> width c = 1440 \<and> height c = 960) \<and>
         (\<exists>c s'. add_particles L G canvas s = (Inr c, s') \<and> width c = 1440 \<and> height c = 960) \<and>
         (\<exists>c. add_vignette L canvas = Inr c \<and> width c = 1440 \<and> height c = 960) \<and>
         (\<exists>final s'. render_image L G s = (Inr final, s') \<and>
            width final = 1440 \<and> height final = 960 \<and>
            (\<forall>x y. \<exists>r g b. pix (convert_rgba final) x y = (r, g, b, 255)) \<and>
            (\<forall>F destination f.
               render L G F destination (s, f) =
                 (case fs_mkdir F (parent destination) f of
                    (Some e, f1) \<Rightarrow> (Some e, s', f1)
                  | (None, f1) \<Rightarrow>
                      (case fs_save F final destination f1 of (r, f2) \<Rightarrow> (r, s', f2)))))"
proof -
  have c: "width canvas = WIDTH" "height canvas = HEIGHT"
    using assms by (simp_all add: WIDTH_def HEIGHT_def)
  have wh: "WIDTH = 1440" "HEIGHT = 960" by (simp_all add: WIDTH_def HEIGHT_def)
  obtain c5 where r: "render_image L G s = (Inr (convert_rgb c5), snd (particle_calls G s))"
    and s: "width c5 = WIDTH" "height c5 = HEIGHT"
    using render_image_stages[of L G s] by auto
  have o: "\<exists>r g b. pix (convert_rgba (convert_rgb c5)) x y = (r, g, b, 255)" for x y
    by (simp add: convert_rgba_def split: prod.splits)
  have "\<exists>final s'. render_image L G s = (Inr final, s') \<and>
            width final = 1440 \<and> height final = 960 \<and>
            (\<forall>x y. \<exists>r g b. pix (convert_rgba final) x y = (r, g, b, 255)) \<and>
            (\<forall>F destination f.
               render L G F destination (s, f) =
                 (case fs_mkdir F (parent destination) f of
                    (Some e, f1) \<Rightarrow> (Some e, s', f1)
                  | (None, f1) \<Rightarrow>
                      (case fs_save F final destination f1 of (r, f2) \<Rightarrow> (r, s', f2))))"
    apply (rule exI[of _ "convert_rgb c5"])
    apply (rule exI[of _ "snd (particle_calls G s)"])
    using r s o by (simp add: convert_rgb_size wh render_def)
  then show ?thesis
    using paint_background_size[of L] add_highlights_size[OF c, of L] add_grid_size[OF c, of L]
      add_panels_size[OF c, of L] add_particles_size[OF c, of L G s] add_vignette_size[OF c, of L]
    unfolding wh by blast
qed

theorem stages_keep_canvas_size_witness:
  "width (new_image 1440 960 (ink_rgba (0, 0, 0, 0))) = 1440 \<and>
   height (new_image 1440 960 (ink_rgba (0, 0, 0, 0))) = 960 \<and>
   (\<exists>c. add_grid plain_lib (new_image 1440 960 (ink_rgba (0, 0, 0, 0))) = Inr c \<and>
        width c = 1440 \<and> height c = 960) \<and>
   (\<exists>final s'. render_image plain_lib lcg (0::nat) = (Inr final, s') \<and>
        width final = 1440 \<and> height final = 960)"
proof -
  have h: "width (new_image 1440 960 (ink_rgba (0, 0, 0, 0))) = 1440"
    "height (new_image 1440 960 (ink_rgba (0, 0, 0, 0))) = 960"
    by (simp_all add: new_image_def)
  show ?thesis
    using stages_keep_canvas_size[OF h, of plain_lib lcg 0] h by blast
qed

section \<open>Determinism\<close>

text \<open>
  Claim C1. The only state a run of the pipeline reads is the module-level generator of
  \<open>random\<close>, and \<open>add_particles\<close> seeds it with 42 before it draws from it. So two runs that
  start with the generator in any two states make the same particle calls, end with the
  same image \<open>final\<close> (and raise nothing) and leave the generator in the same state, and
  \<open>render\<close> does the same to the same file system; the hypothesis is the contract of
  \<open>random.seed\<close>, that the state after seeding does not depend on the state before.
\<close>

theorem render_deterministic:
  assumes "\<forall>s s'. rng_seed G 42 s = rng_seed G 42 s'"
  shows "particle_calls G s1 = particle_calls G s2 \<and>
         render_image L G s1 = render_image L G s2 \<and>
         (\<exists>final. fst (render_image L G s1) = Inr final \<and> fst (render_image L G s2) = Inr final) \<and>
         render L G F destination (s1, f) = render L G F destination (s2, f)"
proof -
  have p: "particle_calls G s1 = particle_calls G s2"
    using assms by (simp add: particle_calls_def) metis
  obtain c0 c1 c2 c3 c4 c5 where
    c: "paint_background L = Inr c0" "add_highlights L c0 = Inr c1" "add_grid L c1 = Inr c2"
      "add_panels L c2 = Inr c3"
    and r: "render_image L G s1 = (Inr (convert_rgb c5), snd (particle_calls G s1))"
    using render_image_stages[of L G s1] by blast
  have "add_particles L G c3 s1 = add_particles L G c3 s2"
    by (simp add: add_particles_eq p)
  then have e: "render_image L G s1 = render_image L G s2"
    by (simp add: render_image_def c)
  then have d: "render L G F destination (s1, f) = render L G F destination (s2, f)"
    by (simp add: render_def)
  have f1: "fst (render_image L G s1) = Inr (convert_rgb c5)"
    by (simp add: r)
  then have f2: "fst (render_image L G s2) = Inr (convert_rgb c5)"
    by (simp add: e)
  show ?thesis
    using p e d f1 f2 by blast
qed

theorem render_deterministic_witness:
  "(\<forall>s s'. rng_seed lcg 42 s = rng_seed lcg 42 s') \<and>
   particle_calls lcg 0 = particle_calls lcg 7 \<and>
   render_image plain_lib lcg 0 = render_image plain_lib lcg 7"
proof -
  have h: "\<forall>s s'. rng_seed lcg 42 s = rng_seed lcg 42 s'"
    by (simp add: lcg_def)
  show ?thesis
    using render_deterministic[OF h, of 0 7 plain_lib saving_fs "\<lparr>is_absolute = False, parts = []\<rparr>" "[]"] h
    by blast
qed

section \<open>add_particles\<close>

lemma particle_step:
  "\<exists>x s1 y s2 r s3 alpha s4 base s5.
     rng_randint G 0 1440 s0 = (x, s1) \<and> rng_randint G 0 960 s1 = (y, s2) \<and>
     rng_randint G 2 5 s2 = (r, s3) \<and> rng_randint G 90 160 s3 = (alpha, s4) \<and>
     rng_choice G particle_options s4 = (base, s5) \<and>
     particle_loop G (Suc n) s0 =
       (Ellipse (of_int (x - r), of_int (y - r), of_int (x + r), of_int (y + r)) (particle_fill base alpha)
          # fst (particle_loop G n s5),
        snd (particle_loop G n s5))"
  by (simp add: WIDTH_def HEIGHT_def split: prod.splits)

lemma particle_loop_length: "length (fst (particle_loop G n s)) = n"
proof (induction n arbitrary: s)
  case 0
  show ?case by simp
next
  case (Suc n)
  obtain c s5 where "particle_loop G (Suc n) s = (c # fst (particle_loop G n s5), snd (particle_loop G n s5))"
    using particle_step[of G s n] by blast
  then show ?case by (simp only: fst_conv list.size Suc.IH)
qed

lemma traced_calls:
  "rng_seed (traced G) k (tr, s) = (tr @ [Seed k], rng_seed G k s)"
  "rng_randint (traced G) a b (tr, s) =
     (fst (rng_randint G a b s), tr @ [Randint a b], snd (rng_randint G a b s))"
  "rng_choice (traced G) xs (tr, s) =
     (fst (rng_choice G xs s), tr @ [Choice xs], snd (rng_choice G xs s))"
  by (simp_all add: traced_def case_prod_beta)

lemma particle_loop_Suc:
  "particle_loop G (Suc n) s0 =
     (let d1 = rng_randint G 0 1440 s0; d2 = rng_randint G 0 960 (snd d1);
          d3 = rng_randint G 2 5 (snd d2); d4 = rng_randint G 90 160 (snd d3);
          d5 = rng_choice G particle_options (snd d4);
          rest = particle_loop G n (snd d5)
      in (Ellipse (of_int (fst d1 - fst d3), of_int (fst d2 - fst d3),
                   of_int (fst d1 + fst d3), of_int (fst d2 + fst d3))
            (particle_fill (fst d5) (fst d4)) # fst rest, snd rest))"
  by (simp add: Let_def case_prod_beta WIDTH_def HEIGHT_def)

lemma particle_loop_traced:
  "particle_loop (traced G) n (tr, s) =
     (fst (particle_loop G n s),
      (tr @ concat (replicate n [Randint 0 1440, Randint 0 960, Randint 2 5, Randint 90 160,
                                 Choice particle_options]),
       snd (particle_loop G n s)))"
proof (induction n arbitrary: tr s)
  case 0
  show ?case by simp
next
  case (Suc n)
  show ?case
    by (simp add: particle_loop_Suc[of "traced G"] particle_loop_Suc[of G] traced_calls Suc.IH Let_def
        del: particle_loop.simps)
qed

lemma particle_loop_range:
  assumes "rng_in_range G" "c \<in> set (fst (particle_loop G n s))"
  shows "\<exists>x y r alpha base.
           c = Ellipse (of_int (x - r), of_int (y - r), of_int (x + r), of_int (y + r))
                 (particle_fill base alpha) \<and>
           0 \<le> x \<and> x \<le> 1440 \<and> 0 \<le> y \<and> y \<le> 960 \<and> 2 \<le> r \<and> r \<le> 5 \<and>
           90 \<le> alpha \<and> alpha \<le> 160 \<and> base \<in> set particle_options"
  using assms(2)
proof (induction n arbitrary: s)
  case 0
  then show ?case by simp
next
  case (Suc n)
  obtain x s1 y s2 r s3 alpha s4 base s5 where
    d: "rng_randint G 0 1440 s = (x, s1)" "rng_randint G 0 960 s1 = (y, s2)"
       "rng_randint G 2 5 s2 = (r, s3)" "rng_randint G 90 160 s3 = (alpha, s4)"
       "rng_choice G particle_options s4 = (base, s5)"
    and l: "particle_loop G (Suc n) s =
       (Ellipse (of_int (x - r), of_int (y - r), of_int (x + r), of_int (y + r)) (particle_fill base alpha)
          # fst (particle_loop G n s5),
        snd (particle_loop G n s5))"
    using particle_step[of G s n] by blast
  have ri: "a \<le> fst (rng_randint G a b s') \<and> fst (rng_randint G a b s') \<le> b" if "a \<le> b" for a b s'
    using assms(1) that by (simp add: rng_in_range_def)
  have "0 \<le> x \<and> x \<le> 1440" "0 \<le> y \<and> y \<le> 960" "2 \<le> r \<and> r \<le> 5" "90 \<le> alpha \<and> alpha \<le> 160"
    using ri[of 0 1440 s] ri[of 0 960 s1] ri[of 2 5 s2] ri[of 90 160 s3] d by simp_all
  moreover have "base \<in> set particle_options"
    using assms(1) d(5) unfolding rng_in_range_def
    by (metis fst_conv particle_options_def list.discI)
  ultimately have here: "\<exists>x y r alpha base.
           Ellipse (of_int (x - r), of_int (y - r), of_int (x + r), of_int (y + r)) (particle_fill base alpha)
           = Ellipse (of_int (x - r), of_int (y - r), of_int (x + r), of_int (y + r))
                 (particle_fill base alpha) \<and>
           0 \<le> x \<and> x \<le> 1440 \<and> 0 \<le> y \<and> y \<le> 960 \<and> 2 \<le> r \<and> r \<le> 5 \<and>
           90 \<le> alpha \<and> alpha \<le> 160 \<and> base \<in> set particle_options"
    by blast
  from Suc.prems l consider
    "c = Ellipse (of_int (x - r), of_int (y - r), of_int (x + r), of_int (y + r)) (particle_fill base alpha)"
    | "c \<in> set (fst (particle_loop G n s5))"
    by auto
  then show ?case
  proof cases
    case 1
    then show ?thesis using \<open>0 \<le> x \<and> x \<le> 1440\<close> \<open>0 \<le> y \<and> y \<le> 960\<close> \<open>2 \<le> r \<and> r \<le> 5\<close>
        \<open>90 \<le> alpha \<and> alpha \<le> 160\<close> \<open>base \<in> set particle_options\<close> by blast
  next
    case 2
    then show ?thesis by (rule Suc.IH)
  qed
qed

lemma rng_in_range_lcg: "rng_in_range lcg"
proof -
  have "a \<le> a + int s mod (b - a + 1) \<and> a + int s mod (b - a + 1) \<le> b" if "a \<le> b" for a b :: int and s :: nat
    using pos_mod_bound[of "b - a + 1" "int s"] pos_mod_sign[of "b - a + 1" "int s"] that by linarith
  then show ?thesis
    by (simp add: rng_in_range_def lcg_def)
qed

text \<open>
  Claim C5. With a generator that records the calls made on it, a run of \<open>add_particles\<close>
  (and a run of the whole pipeline) adds to the record \<open>seed(42)\<close>, once, and then 140
  times the five calls \<open>randint(0, 1440)\<close>, \<open>randint(0, 960)\<close>, \<open>randint(2, 5)\<close>,
  \<open>randint(90, 160)\<close> and \<open>choice\<close> of the three candidate colours, and nothing else; the
  calls drawn are those of the generator that does not record. Each pass of the loop
  takes the five values in this order from the one stream, as \<open>x\<close>, \<open>y\<close>, \<open>r\<close>, \<open>alpha\<close> and
  the colour, and draws one ellipse from them. When \<open>randint\<close> returns a value of its
  closed range and \<open>choice\<close> an element of its argument, every particle has \<open>x\<close> in
  \<open>[0, 1440]\<close>, \<open>y\<close> in \<open>[0, 960]\<close>, \<open>r\<close> in \<open>[2, 5]\<close>, \<open>alpha\<close> in \<open>[90, 160]\<close> and one of the
  three colours.
\<close>

theorem particles_consume_stream:
  "snd (particle_calls (traced G) (tr, s)) =
     (tr @ Seed 42 # concat (replicate 140
        [Randint 0 1440, Randint 0 960, Randint 2 5, Randint 90 160,
         Choice [(94, 234, 212, 0), (244, 114, 182, 0), (180, 200, 255, 0)]]),
      snd (particle_calls G s)) \<and>
   snd (render_image L (traced G) (tr, s)) = snd (particle_calls (traced G) (tr, s)) \<and>
   fst (particle_calls (traced G) (tr, s)) = fst (particle_calls G s) \<and>
   length (fst (particle_calls G s)) = 140 \<and>
   (\<forall>n s0. \<exists>x s1 y s2 r s3 alpha s4 base s5.
      rng_randint G 0 1440 s0 = (x, s1) \<and> rng_randint G 0 960 s1 = (y, s2) \<and>
      rng_randint G 2 5 s2 = (r, s3) \<and> rng_randint G 90 160 s3 = (alpha, s4) \<and>
      rng_choice G particle_options s4 = (base, s5) \<and>
      particle_loop G (Suc n) s0 =
        (Ellipse (of_int (x - r), of_int (y - r), of_int (x + r), of_int (y + r))
           (particle_fill base alpha) # fst (particle_loop G n s5),
         snd (particle_loop G n s5))) \<and>
   (rng_in_range G \<longrightarrow>
      (\<forall>c \<in> set (fst (particle_calls G s)).
         \<exists>x y r alpha base.
           c = Ellipse (of_int (x - r), of_int (y - r), of_int (x + r), of_int (y + r))
                 (particle_fill base alpha) \<and>
           0 \<le> x \<and> x \<le> 1440 \<and> 0 \<le> y \<and> y \<le> 960 \<and> 2 \<le> r \<and> r \<le> 5 \<and>
           90 \<le> alpha \<and> alpha \<le> 160 \<and>
           base \<in> {(94, 234, 212, 0), (244, 114, 182, 0), (180, 200, 255, 0)}))"
proof -
  have po: "particle_options = [(94, 234, 212, 0), (244, 114, 182, 0), (180, 200, 255, 0)]"
    by (simp add: particle_options_def with_alpha_def cyan_def magenta_def)
  have t: "particle_calls (traced G) (tr, s) =
     (fst (particle_calls G s),
      tr @ Seed 42 # concat (replicate 140
        [Randint 0 1440, Randint 0 960, Randint 2 5, Randint 90 160, Choice particle_options]),
      snd (particle_calls G s))"
    by (simp only: particle_calls_def traced_calls particle_loop_traced append_assoc append.simps)
  have r: "snd (render_image L (traced G) (tr, s)) = snd (particle_calls (traced G) (tr, s))"
    using render_image_stages[of L "traced G" "(tr, s)"] by auto
  have len: "length (fst (particle_calls G s)) = 140"
    by (simp add: particle_calls_def particle_loop_length)
  have rg: "\<exists>x y r alpha base.
           c = Ellipse (of_int (x - r), of_int (y - r), of_int (x + r), of_int (y + r))
                 (particle_fill base alpha) \<and>
           0 \<le> x \<and> x \<le> 1440 \<and> 0 \<le> y \<and> y \<le> 960 \<and> 2 \<le> r \<and> r \<le> 5 \<and>
           90 \<le> alpha \<and> alpha \<le> 160 \<and>
           base \<in> {(94, 234, 212, 0), (244, 114, 182, 0), (180, 200, 255, 0)}"
    if "rng_in_range G" "c \<in> set (fst (particle_calls G s))" for c
    using particle_loop_range[OF that(1), of c 140 "rng_seed G 42 s"] that(2)
    by (simp add: particle_calls_def po)
  show ?thesis
    using t r len rg particle_step[of G] unfolding po by (intro conjI allI impI ballI) simp_all
qed

theorem particles_consume_stream_witness:
  "rng_in_range lcg \<and>
   fst (snd (particle_calls (traced lcg) ([], 0))) =
     Seed 42 # concat (replicate 140
        [Randint 0 1440, Randint 0 960, Randint 2 5, Randint 90 160,
         Choice [(94, 234, 212, 0), (244, 114, 182, 0), (180, 200, 255, 0)]]) \<and>
   (\<exists>x y r alpha base.
      hd (fst (particle_calls lcg 0)) =
        Ellipse (of_int (x - r), of_int (y - r), of_int (x + r), of_int (y + r))
          (particle_fill base alpha) \<and>
      0 \<le> x \<and> x \<le> 1440 \<and> 0 \<le> y \<and> y \<le> 960 \<and> 2 \<le> r \<and> r \<le> 5 \<and>
      90 \<le> alpha \<and> alpha \<le> 160)"
proof -
  note w = particles_consume_stream[of lcg "[]" 0 plain_lib]
  have "length (fst (particle_calls lcg 0)) = 140" using w by blast
  then have "hd (fst (particle_calls lcg 0)) \<in> set (fst (particle_calls lcg 0))"
    by (cases "fst (particle_calls lcg 0)") simp_all
  moreover have "\<forall>c \<in> set (fst (particle_calls lcg 0)).
         \<exists>x y r alpha base.
           c = Ellipse (of_int (x - r), of_int (y - r), of_int (x + r), of_int (y + r))
                 (particle_fill base alpha) \<and>
           0 \<le> x \<and> x \<le> 1440 \<and> 0 \<le> y \<and> y \<le> 960 \<and> 2 \<le> r \<and> r \<le> 5 \<and>
           90 \<le> alpha \<and> alpha \<le> 160 \<and>
           base \<in> {(94, 234, 212, 0), (244, 114, 182, 0), (180, 200, 255, 0)}"
    using w rng_in_range_lcg by blast
  ultimately have "\<exists>x y r alpha base.
      hd (fst (particle_calls lcg 0)) =
        Ellipse (of_int (x - r), of_int (y - r), of_int (x + r), of_int (y + r))
          (particle_fill base alpha) \<and>
      0 \<le> x \<and> x \<le> 1440 \<and> 0 \<le> y \<and> y \<le> 960 \<and> 2 \<le> r \<and> r \<le> 5 \<and>
      90 \<le> alpha \<and> alpha \<le> 160"
    by blast
  moreover have "fst (snd (particle_calls (traced lcg) ([], 0))) =
     Seed 42 # concat (replicate 140
        [Randint 0 1440, Randint 0 960, Randint 2 5, Randint 90 160,
         Choice [(94, 234, 212, 0), (244, 114, 182, 0), (180, 200, 255, 0)]])"
    using w by simp
  ultimately show ?thesis
    using rng_in_range_lcg by blast
qed

section \<open>add_highlights\<close>






text \<open>
  The painter's rule of a sequence of ellipses drawn on one image: a pixel holds the ink
  of the last ellipse drawn that covers it, and its initial content when none does.
\<close>

lemma draw_all_snoc: "draw_all L ink (cs @ [c]) img = draw L ink c (draw_all L ink cs img)"
  by (simp add: draw_all_def)











section \<open>add_panels\<close>

lemma length_concat_rows: "length (concat (map (\<lambda>r. map (f r) [0..<m]) [0..<n])) = n * m"
  by (induction n) simp_all

lemma nth_concat_rows:
  assumes "r < n" "c < m"
  shows "concat (map (\<lambda>r. map (f r) [0..<m]) [0..<n]) ! (r * m + c) = f r c"
  using assms(1)
proof (induction n)
  case 0
  then show ?case by simp
next
  case (Suc n)
  show ?case
  proof (cases "r < n")
    case True
    then have "Suc r * m \<le> n * m" by (intro mult_le_mono1) simp
    then have "r * m + c < n * m" using assms(2) by simp
    then show ?thesis using Suc.IH[OF True] by (simp add: nth_append length_concat_rows)
  next
    case False
    then have "r = n" using Suc.prems by simp
    then show ?thesis using assms(2) by (simp add: nth_append length_concat_rows)
  qed
qed

lemma draw_all_append:
  "draw_all L ink (cs @ ds) img = draw_all L ink ds (draw_all L ink cs img)"
  by (simp add: draw_all_def)

lemma draw_untouched:
  "\<not> touches L c x y \<Longrightarrow> pix (draw L ink c img) x y = pix img x y"
  by (induction L ink c img rule: draw.induct) (simp_all add: touches_def paint_def)

lemma draw_all_untouched:
  "\<forall>c \<in> set cs. \<not> touches L c x y \<Longrightarrow> pix (draw_all L ink cs img) x y = pix img x y"
  unfolding draw_all_def
  by (induction cs arbitrary: img rule: rev_induct) (simp_all add: draw_untouched)

lemma draw_filled:
  assumes "x < width img" "y < height img" "covers L (RoundedRectArea bb radius) x y"
  shows "pix (draw L ink (RoundedRectangle bb radius fill None w) img) x y = ink fill"
  using assms by (simp add: paint_def)

text \<open>
  A pixel covered by one call of a sequence and by none of the later calls holds the
  ink of that call.
\<close>

lemma draw_all_last_cover:
  assumes "k < length cs" "cs ! k = RoundedRectangle bb radius fill None w"
    and "x < width img" "y < height img" "covers L (RoundedRectArea bb radius) x y"
    and "\<forall>c \<in> set (drop (Suc k) cs). \<not> touches L c x y"
  shows "pix (draw_all L ink cs img) x y = ink fill"
proof -
  have "cs = take k cs @ [cs ! k] @ drop (Suc k) cs"
    using assms(1) by (simp add: id_take_nth_drop)
  then have "draw_all L ink cs img =
      draw_all L ink (drop (Suc k) cs)
        (draw L ink (RoundedRectangle bb radius fill None w) (draw_all L ink (take k cs) img))"
    using assms(2) by (metis draw_all_append draw_all_snoc append_assoc)
  then show ?thesis
    using assms(3-6) by (simp add: draw_all_untouched paint_def draw_all_size)
qed

lemma bar_call_value:
  "bar_call L row col =
     RoundedRectangle
       (fadd chart_left (of_nat (col * 64)),
        fsub (baseline row) (height_value L row col),
        fadd (fadd chart_left (of_nat (col * 64))) 42,
        baseline row)
       12 (with_alpha (accents ! ((row + col) mod 4)) 220) None 1"
  by (simp add: bar_call_def Let_def bar_width_def accents_def)

lemma bar_calls_nth: "row < 3 \<Longrightarrow> col < 7 \<Longrightarrow> bar_calls L ! (row * 7 + col) = bar_call L row col"
  unfolding bar_calls_def by (intro nth_concat_rows) simp_all

lemma bar_calls_length: "length (bar_calls L) = 21"
  by (simp add: bar_calls_def length_concat_rows)

lemma panel_layer_bar:
  assumes "row < 3" "col < 7" "x < WIDTH" "y < HEIGHT"
    and "covers L (RoundedRectArea
           (fadd chart_left (of_nat (col * 64)),
            fsub (baseline row) (height_value L row col),
            fadd (fadd chart_left (of_nat (col * 64))) 42,
            baseline row) 12) x y"
    and "\<forall>c \<in> set (drop (row * 7 + col + 1) (bar_calls L) @ sparkline_calls L
                     @ concat (map card_calls float_cards)). \<not> touches L c x y"
  shows "pix (draw_all L ink_rgba (panel_calls L) (new_image WIDTH HEIGHT (ink_rgba (0, 0, 0, 0)))) x y =
           ink_rgba (with_alpha (accents ! ((row + col) mod 4)) 220)"
proof -
  let ?pre = "main_panel_call # light_calls @ nav_calls"
  let ?k = "length ?pre + (row * 7 + col)"
  have "Suc row * 7 \<le> 3 * 7" using assms(1) by (intro mult_le_mono1) simp
  then have i: "row * 7 + col < 21" using assms(2) by simp
  have p: "panel_calls L = ?pre @ (bar_calls L @ sparkline_calls L @ concat (map card_calls float_cards))"
    by (simp add: panel_calls_def)
  have k: "?k < length (panel_calls L)"
    using i by (simp add: p bar_calls_length)
  have n: "panel_calls L ! ?k = bar_call L row col"
    using i assms(1,2) by (simp only: p nth_append_length_plus) (simp add: nth_append bar_calls_length bar_calls_nth)
  have d: "drop (Suc ?k) (panel_calls L) =
             drop (row * 7 + col + 1) (bar_calls L) @ sparkline_calls L @ concat (map card_calls float_cards)"
    using i by (simp only: p drop_append) (simp add: bar_calls_length)
  have "x < width (new_image WIDTH HEIGHT (ink_rgba (0, 0, 0, 0)))"
    "y < height (new_image WIDTH HEIGHT (ink_rgba (0, 0, 0, 0)))"
    using assms(3,4) by (simp_all add: new_image_size)
  then show ?thesis
    using assms(5,6) by (intro draw_all_last_cover[OF k n[unfolded bar_call_value]]) (simp_all only: d)
qed

text \<open>
  The last bar of the chart, at the pixel \<open>(1000, 560)\<close>, with the rasteriser that covers
  bounding boxes: the bar covers the pixel, and neither the sparkline nor a floating card
  writes it.
\<close>

lemma box_lib_fields:
  "math_sin box_lib = (\<lambda>x. 0)" "math_cos box_lib = (\<lambda>x. 1)"
  "covers box_lib (EllipseArea bb) x y = in_box bb x y"
  "covers box_lib (RoundedRectArea bb r) x y = in_box bb x y"
  "covers box_lib (RoundedRectBorder bb r w) x y = False"
  "covers box_lib (LineStroke pts w c) x y = False"
  "over_px box_lib = over_px plain_lib"
  by (simp_all add: box_lib_def plain_lib_def)

lemma last_bar_covers:
  "covers box_lib (RoundedRectArea
           (fadd chart_left (of_nat (6 * 64)),
            fsub (baseline 2) (height_value box_lib 2 6),
            fadd (fadd chart_left (of_nat (6 * 64))) 42,
            baseline 2) 12) 1000 560"
  apply (simp add: box_lib_fields in_box_def baseline_def height_value_def chart_left_def chart_top_def
      nav_x_def mp0_def mp1_def main_panel_def fadd_def fsub_def fmul_def fdiv_def flit_def
      WIDTH_def HEIGHT_def Let_def)
  apply code_simp
  done

lemma sparkline_untouched:
  "c \<in> set (sparkline_calls box_lib) \<Longrightarrow> \<not> touches box_lib c 1000 560"
proof -
  have y: "fadd (fsub (fsub chart_bottom 120) (fmul 1 70)) 9 < 560"
    apply (simp add: chart_bottom_def mp3_def main_panel_def fadd_def fsub_def fmul_def flit_def
        HEIGHT_def)
    apply code_simp
    done
  assume "c \<in> set (sparkline_calls box_lib)"
  then consider "c = Line (sparkline_points box_lib) (with_alpha cyan 200) 6 True"
    | idx where "c = Ellipse (fsub (fst (sparkline_point box_lib idx)) 9, fsub (snd (sparkline_point box_lib idx)) 9,
                        fadd (fst (sparkline_point box_lib idx)) 9, fadd (snd (sparkline_point box_lib idx)) 9)
                   (15, 255, 204, 230)"
    by (auto simp: sparkline_calls_def sparkline_points_def case_prod_beta)
  then show ?thesis
  proof cases
    case 1
    then show ?thesis by (simp add: touches_def box_lib_fields)
  next
    case 2
    have "snd (sparkline_point box_lib idx) = fsub (fsub chart_bottom 120) (fmul 1 70)"
      by (simp add: sparkline_point_def Let_def box_lib_fields)
    then show ?thesis
      using y 2 by (simp add: touches_def box_lib_fields in_box_def)
  qed
qed

lemma card_edges:
  "\<not> fl (1440 * fl (37 / 50)) \<le> 1000"
  "\<not> fl (fl (fl (1440 * fl (37 / 50)) + 64) - 28) \<le> 1000"
  "\<not> fl (fl (fl (1440 * fl (37 / 50)) + 64) - 16) \<le> 1000"
  "\<not> fl (1440 * fl (7 / 10)) \<le> 1000"
  "\<not> fl (fl (fl (1440 * fl (7 / 10)) + 64) - 28) \<le> 1000"
  "\<not> fl (fl (fl (1440 * fl (7 / 10)) + 64) - 16) \<le> 1000"
  by code_simp+

lemma cards_untouched:
  "c \<in> set (concat (map card_calls float_cards)) \<Longrightarrow> \<not> touches box_lib c 1000 560"
  apply (simp add: float_cards_def card_calls_def Let_def)
  apply (elim disjE)
  apply (simp_all add: touches_def box_lib_fields in_box_def fadd_def fsub_def fmul_def fdiv_def
      flit_def WIDTH_def HEIGHT_def card_edges)
  done

text \<open>
  Claim C8. The chart loop of \<open>add_panels\<close> makes 3 times 7 calls, row by row; the call of
  row \<open>row\<close> and column \<open>col\<close> is a \<open>rounded_rectangle\<close> of radius 12 whose lower edge is the
  baseline of the row, \<open>chart_top + row * 160\<close>, and whose upper edge lies
  \<open>(sin((row + col / 2) * 0.7) * 0.3 + 0.6) * 120\<close> above it, filled with the accent colour
  at index \<open>(row + col) mod 4\<close> of the four accent colours, at alpha 220. \<open>add_panels\<close>
  draws these calls, between the navigation blocks and the sparkline, on the layer it
  composites onto the canvas: at a pixel that the bar of \<open>(row, col)\<close> covers and no later
  call writes, the canvas it returns holds the composition of the canvas pixel with the
  colour of that bar. The pipeline runs \<open>add_panels\<close> on the canvas that \<open>add_grid\<close> returns.
\<close>

theorem bar_chart:
  "length (bar_calls L) = 3 * 7 \<and>
   accents = [cyan, magenta, amber, indigo] \<and>
   (\<forall>row col. row < 3 \<and> col < 7 \<longrightarrow>
      bar_calls L ! (row * 7 + col) =
        RoundedRectangle
          (fadd chart_left (of_nat (col * 64)),
           fsub (baseline row) (height_value L row col),
           fadd (fadd chart_left (of_nat (col * 64))) 42,
           baseline row)
          12 (with_alpha (accents ! ((row + col) mod 4)) 220) None 1 \<and>
      height_value L row col =
        fmul (fadd (fmul (math_sin L (fmul (fadd (of_nat row) (fdiv (of_nat col) 2)) (flit (7/10))))
                      (flit (3/10))) (flit (6/10))) 120 \<and>
      baseline row = fadd chart_top (of_nat (row * 160))) \<and>
   add_panels L canvas =
     alpha_composite L canvas
       (draw_all L ink_rgba
          (main_panel_call # light_calls @ nav_calls @ bar_calls L @ sparkline_calls L
           @ concat (map card_calls float_cards))
          (new_image WIDTH HEIGHT (ink_rgba (0, 0, 0, 0)))) \<and>
   (\<forall>row col x y.
      width canvas = WIDTH \<and> height canvas = HEIGHT \<and> row < 3 \<and> col < 7 \<and>
      x < WIDTH \<and> y < HEIGHT \<and>
      covers L (RoundedRectArea
           (fadd chart_left (of_nat (col * 64)),
            fsub (baseline row) (height_value L row col),
            fadd (fadd chart_left (of_nat (col * 64))) 42,
            baseline row) 12) x y \<and>
      (\<forall>c \<in> set (drop (row * 7 + col + 1) (bar_calls L) @ sparkline_calls L
                     @ concat (map card_calls float_cards)). \<not> touches L c x y) \<longrightarrow>
      (\<exists>out. add_panels L canvas = Inr out \<and> width out = WIDTH \<and> height out = HEIGHT \<and>
         pix out x y =
           over_px L (pix canvas x y) (ink_rgba (with_alpha (accents ! ((row + col) mod 4)) 220)))) \<and>
   (\<exists>c0 c1 c2 c3 c4 c5 s'.
      paint_background L = Inr c0 \<and> add_highlights L c0 = Inr c1 \<and> add_grid L c1 = Inr c2 \<and>
      width c2 = WIDTH \<and> height c2 = HEIGHT \<and>
      add_panels L c2 = Inr c3 \<and> add_particles L G c3 s = (Inr c4, s') \<and>
      add_vignette L c4 = Inr c5 \<and> render_image L G s = (Inr (convert_rgb c5), s'))"
proof -
  have l: "length (bar_calls L) = 3 * 7"
    by (simp add: bar_calls_length)
  have b: "bar_calls L ! (row * 7 + col) =
        RoundedRectangle
          (fadd chart_left (of_nat (col * 64)),
           fsub (baseline row) (height_value L row col),
           fadd (fadd chart_left (of_nat (col * 64))) 42,
           baseline row)
          12 (with_alpha (accents ! ((row + col) mod 4)) 220) None 1" if "row < 3 \<and> col < 7" for row col
    using that by (simp only: bar_calls_nth bar_call_value)
  have h: "height_value L row col =
        fmul (fadd (fmul (math_sin L (fmul (fadd (of_nat row) (fdiv (of_nat col) 2)) (flit (7/10))))
                      (flit (3/10))) (flit (6/10))) 120" for row col
    by (simp add: height_value_def Let_def)
  have a: "add_panels L canvas =
     alpha_composite L canvas
       (draw_all L ink_rgba
          (main_panel_call # light_calls @ nav_calls @ bar_calls L @ sparkline_calls L
           @ concat (map card_calls float_cards))
          (new_image WIDTH HEIGHT (ink_rgba (0, 0, 0, 0))))"
    by (simp add: add_panels_def panel_calls_def)
  have px: "\<exists>out. add_panels L canvas = Inr out \<and> width out = WIDTH \<and> height out = HEIGHT \<and>
         pix out x y =
           over_px L (pix canvas x y) (ink_rgba (with_alpha (accents ! ((row + col) mod 4)) 220))"
    if "width canvas = WIDTH \<and> height canvas = HEIGHT \<and> row < 3 \<and> col < 7 \<and>
      x < WIDTH \<and> y < HEIGHT \<and>
      covers L (RoundedRectArea
           (fadd chart_left (of_nat (col * 64)),
            fsub (baseline row) (height_value L row col),
            fadd (fadd chart_left (of_nat (col * 64))) 42,
            baseline row) 12) x y \<and>
      (\<forall>c \<in> set (drop (row * 7 + col + 1) (bar_calls L) @ sparkline_calls L
                     @ concat (map card_calls float_cards)). \<not> touches L c x y)"
    for row col x y
  proof -
    let ?layer = "draw_all L ink_rgba (panel_calls L) (new_image WIDTH HEIGHT (ink_rgba (0, 0, 0, 0)))"
    have "pix ?layer x y = ink_rgba (with_alpha (accents ! ((row + col) mod 4)) 220)"
      using that by (intro panel_layer_bar) simp_all
    moreover have "width ?layer = WIDTH" "height ?layer = HEIGHT"
      by (simp_all add: draw_all_size new_image_size)
    ultimately show ?thesis
      using that by (simp add: add_panels_def alpha_composite_def)
  qed
  have r: "\<exists>c0 c1 c2 c3 c4 c5 s'.
      paint_background L = Inr c0 \<and> add_highlights L c0 = Inr c1 \<and> add_grid L c1 = Inr c2 \<and>
      width c2 = WIDTH \<and> height c2 = HEIGHT \<and>
      add_panels L c2 = Inr c3 \<and> add_particles L G c3 s = (Inr c4, s') \<and>
      add_vignette L c4 = Inr c5 \<and> render_image L G s = (Inr (convert_rgb c5), s')"
  proof -
    obtain c0 c1 c2 c3 c4 c5 where
      c: "paint_background L = Inr c0" "add_highlights L c0 = Inr c1" "add_grid L c1 = Inr c2"
        "add_panels L c2 = Inr c3" "add_particles L G c3 s = (Inr c4, snd (particle_calls G s))"
        "add_vignette L c4 = Inr c5"
        "render_image L G s = (Inr (convert_rgb c5), snd (particle_calls G s))"
      and sz: "\<forall>c \<in> {c0, c1, c2, c3, c4, c5}. width c = WIDTH \<and> height c = HEIGHT"
      using render_image_stages[of L G s] by blast
    have "width c2 = WIDTH" "height c2 = HEIGHT" using sz by simp_all
    then show ?thesis using c by blast
  qed
  show ?thesis
    using l b h a px r by (simp add: accents_def baseline_def)
qed

theorem bar_chart_witness:
  "covers box_lib (RoundedRectArea
           (fadd chart_left (of_nat (6 * 64)),
            fsub (baseline 2) (height_value box_lib 2 6),
            fadd (fadd chart_left (of_nat (6 * 64))) 42,
            baseline 2) 12) 1000 560 \<and>
   (\<exists>out. add_panels box_lib (new_image WIDTH HEIGHT (ink_rgba (0, 0, 0, 0))) = Inr out \<and>
      pix out 1000 560 = over_px box_lib (0, 0, 0, 0) (94, 234, 212, 220)) \<and>
   (\<exists>bb. bar_calls box_lib ! 20 = RoundedRectangle bb 12 (94, 234, 212, 220) None 1) \<and>
   length (bar_calls box_lib) = 21"
proof -
  let ?canvas = "new_image WIDTH HEIGHT (ink_rgba (0, 0, 0, 0))"
  note w = bar_chart[of box_lib ?canvas lcg 0]
  have later: "\<forall>c \<in> set (drop (2 * 7 + 6 + 1) (bar_calls box_lib) @ sparkline_calls box_lib
                     @ concat (map card_calls float_cards)). \<not> touches box_lib c 1000 560"
    using sparkline_untouched cards_untouched by (auto simp: bar_calls_length)
  have "\<exists>out. add_panels box_lib ?canvas = Inr out \<and> width out = WIDTH \<and> height out = HEIGHT \<and>
         pix out 1000 560 =
           over_px box_lib (pix ?canvas 1000 560) (ink_rgba (with_alpha (accents ! ((2 + 6) mod 4)) 220))"
    using last_bar_covers later
    by (intro w[THEN conjunct2, THEN conjunct2, THEN conjunct2, THEN conjunct2, THEN conjunct1,
          rule_format, of 2 6 1000 560])
       (simp add: new_image_size WIDTH_def HEIGHT_def)
  then have p: "\<exists>out. add_panels box_lib ?canvas = Inr out \<and>
      pix out 1000 560 = over_px box_lib (0, 0, 0, 0) (94, 234, 212, 220)"
    by (auto simp: new_image_def ink_rgba_def clip8_def accents_def with_alpha_def cyan_def)
  have "bar_calls box_lib ! (2 * 7 + 6) =
        RoundedRectangle
          (fadd chart_left (of_nat (6 * 64)),
           fsub (baseline 2) (height_value box_lib 2 6),
           fadd (fadd chart_left (of_nat (6 * 64))) 42,
           baseline 2)
          12 (with_alpha (accents ! ((2 + 6) mod 4)) 220) None 1"
    using w[THEN conjunct2, THEN conjunct2, THEN conjunct1, rule_format, of 2 6] by simp
  then have b: "\<exists>bb. bar_calls box_lib ! 20 = RoundedRectangle bb 12 (94, 234, 212, 220) None 1"
    by (simp add: accents_def with_alpha_def cyan_def)
  have "length (bar_calls box_lib) = 21" using w by simp
  then show ?thesis
    using last_bar_covers p b by blast
qed

section \<open>main\<close>

lemma render_saving_fs:
  "\<exists>s'. render L G saving_fs destination (s, f) = (None, s', f @ [destination])"
proof -
  obtain c5 where "render_image L G s = (Inr (convert_rgb c5), snd (particle_calls G s))"
    using render_image_stages[of L G s] by blast
  then show ?thesis by (simp add: render_def saving_fs_def)
qed

text \<open>
  Claim C9. After a run in which \<open>render\<close> raised nothing, so that the image was written,
  \<open>main\<close> prints the path and exits with status 0 when the destination is relative or lies
  under the working directory. For an absolute destination outside the working directory
  the claim fails: \<open>relative_to\<close> raises ValueError in the argument of \<open>print\<close>, nothing is
  printed and the status is 1, although the file was written.
\<close>

theorem main_after_write:
  assumes "render L G F output w = (None, w')"
  shows "main L G F cwd output w =
           (if is_absolute output \<and>
               \<not> (is_absolute cwd \<and> take (length (parts cwd)) (parts output) = parts cwd)
            then \<lparr>exit_status = 1, printed = [], world = w'\<rparr>
            else \<lparr>exit_status = 0,
                  printed = [''[hero-render] wrote '' @
                     path_str (if is_absolute output
                               then \<lparr>is_absolute = False, parts = drop (length (parts cwd)) (parts output)\<rparr>
                               else output)],
                  world = w'\<rparr>)"
  using assms by (auto simp: main_def relative_to_def)

theorem main_after_write_witness:
  "(\<exists>s'. render plain_lib lcg saving_fs \<lparr>is_absolute = True, parts = [''tmp'', ''hero.png'']\<rparr> (0, [])
           = (None, s', [\<lparr>is_absolute = True, parts = [''tmp'', ''hero.png'']\<rparr>]) \<and>
         main plain_lib lcg saving_fs \<lparr>is_absolute = True, parts = [''home'', ''user'', ''repo'']\<rparr>
           \<lparr>is_absolute = True, parts = [''tmp'', ''hero.png'']\<rparr> (0, [])
           = \<lparr>exit_status = 1, printed = [],
              world = (s', [\<lparr>is_absolute = True, parts = [''tmp'', ''hero.png'']\<rparr>])\<rparr>)"
proof -
  obtain s' where r: "render plain_lib lcg saving_fs \<lparr>is_absolute = True, parts = [''tmp'', ''hero.png'']\<rparr> (0, [])
           = (None, s', [] @ [\<lparr>is_absolute = True, parts = [''tmp'', ''hero.png'']\<rparr>])"
    using render_saving_fs[of plain_lib lcg "\<lparr>is_absolute = True, parts = [''tmp'', ''hero.png'']\<rparr>" 0 "[]"]
    by blast
  show ?thesis
    using main_after_write[OF r, of "\<lparr>is_absolute = True, parts = [''home'', ''user'', ''repo'']\<rparr>"] r
    by simp
qed

text \<open>
  The run with \<open>--output /tmp/hero.png\<close> from the working directory \<open>/home/user/repo\<close>, on a
  file system where every write succeeds: the file is saved, nothing is printed, and the
  exit status is 1.
\<close>

theorem main_absolute_output_counterexample:
  "fst (render plain_lib lcg saving_fs \<lparr>is_absolute = True, parts = [''tmp'', ''hero.png'']\<rparr> (0, [])) = None \<and>
   snd (snd (render plain_lib lcg saving_fs \<lparr>is_absolute = True, parts = [''tmp'', ''hero.png'']\<rparr> (0, [])))
     = [\<lparr>is_absolute = True, parts = [''tmp'', ''hero.png'']\<rparr>] \<and>
   exit_status (main plain_lib lcg saving_fs \<lparr>is_absolute = True, parts = [''home'', ''user'', ''repo'']\<rparr>
     \<lparr>is_absolute = True, parts = [''tmp'', ''hero.png'']\<rparr> (0, [])) = 1 \<and>
   printed (main plain_lib lcg saving_fs \<lparr>is_absolute = True, parts = [''home'', ''user'', ''repo'']\<rparr>
     \<lparr>is_absolute = True, parts = [''tmp'', ''hero.png'']\<rparr> (0, [])) = []"
proof -
  obtain s' where r: "render plain_lib lcg saving_fs \<lparr>is_absolute = True, parts = [''tmp'', ''hero.png'']\<rparr> (0, [])
           = (None, s', [] @ [\<lparr>is_absolute = True, parts = [''tmp'', ''hero.png'']\<rparr>])"
    using render_saving_fs[of plain_lib lcg "\<lparr>is_absolute = True, parts = [''tmp'', ''hero.png'']\<rparr>" 0 "[]"]
    by blast
  then show ?thesis
    by (simp add: main_def relative_to_def)
qed
end
